theory Spec2Isabelle
  imports Main "HOL-Library.Word"
begin

unbundle bit_operations_syntax

section \<open>The fiber scheduler of util/asio/io_context.cc\<close>

text \<open>
  A shallow embedding of \<^verbatim>\<open>AsioScheduler\<close> (src/util/asio/io_context.cc): the ready
  queues, \<^verbatim>\<open>awakened\<close>, \<^verbatim>\<open>pick_next\<close>, \<^verbatim>\<open>property_change\<close>, \<^verbatim>\<open>suspend_until\<close>,
  \<^verbatim>\<open>notify\<close> and \<^verbatim>\<open>MainLoop\<close>. Every \<^verbatim>\<open>DCHECK\<close> and \<^verbatim>\<open>CHECK\<close> of the source is a branch
  that returns an error value (the abort of a checked build).
\<close>

subsection \<open>Constants\<close>

definition MAIN_NICE_LEVEL :: nat where
  "MAIN_NICE_LEVEL = 0"

definition MAIN_SWITCH_LIMIT :: nat where
  "MAIN_SWITCH_LIMIT = 4"

text \<open>
  Modelled from the spec: \<^verbatim>\<open>IoFiberProperties::MAX_NICE_LEVEL\<close> and
  \<^verbatim>\<open>IoFiberProperties::NUM_NICE_LEVELS\<close> are declared in util/asio/io_context.h, which is not
  among the sources. The value of \<^verbatim>\<open>MAX_NICE_LEVEL\<close> is the parameter \<open>mx\<close> of every
  operation below; worker levels are \<open>0..mx\<close>, so there are \<open>mx + 1\<close> of them, and the
  dispatcher slot \<^verbatim>\<open>rqueue_arr_ + MAX_NICE_LEVEL + 1\<close> is the last element of
  \<^verbatim>\<open>rqueue_arr_[NUM_NICE_LEVELS + 1]\<close>.
\<close>

definition NUM_NICE_LEVELS :: "nat \<Rightarrow> nat" where
  "NUM_NICE_LEVELS mx = mx + 1"

definition LOOP_RUN_ONE :: "8 word" where
  "LOOP_RUN_ONE = 1"

definition LOOP_SUSPEND :: "8 word" where
  "LOOP_SUSPEND = 2"

subsection \<open>Fiber contexts and properties\<close>

text \<open>
  \<^verbatim>\<open>fibers::context*\<close>: a context is known by its identity and its kind;
  \<^verbatim>\<open>ctx->is_context(fibers::type::dispatcher_context)\<close> tests the kind.
\<close>

datatype ctx_type = main_context | dispatcher_context | worker_context

datatype fiber_context = Context (get_id: nat) (ctype: ctx_type)

definition is_dispatcher :: "fiber_context \<Rightarrow> bool" where
  "is_dispatcher ctx = (ctype ctx = dispatcher_context)"

text \<open>
  \<^verbatim>\<open>IoFiberProperties\<close>: the field is the private member behind the accessor
  \<^verbatim>\<open>nice_level()\<close>.
\<close>

record IoFiberProperties =
  nice_level :: nat

subsection \<open>The suspend timer\<close>

text \<open>
  Modelled from the spec: \<^verbatim>\<open>asio::steady_timer\<close> is the reactor's timer, not code of this
  repository. Section 6 of the specification gives its contract, and so does the comment in
  \<^verbatim>\<open>suspend_until\<close> ("Each expires_at(time_point) call cancels any previous pending
  call"): \<^verbatim>\<open>expires_at(t)\<close> sets the expiry and cancels every pending wait (each cancelled
  handler completes with \<^verbatim>\<open>operation_aborted\<close>); \<^verbatim>\<open>async_wait(h)\<close> registers one more
  pending wait against the current expiry. The record keeps the expiry, the number of
  waits still pending, the number of waits cancelled so far, and the history of calls
  (oldest first). A time point is the tick count of \<^verbatim>\<open>steady_clock\<close>, a signed 64-bit
  integer; \<^verbatim>\<open>time_point::max()\<close> is its largest value.
\<close>

type_synonym time_point = int

definition time_point_max :: time_point where
  "time_point_max = 2 ^ 63 - 1"

datatype timer_call = ExpiresAt time_point | AsyncWait

record steady_timer =
  expiry :: time_point
  pending_waits :: nat
  aborted_waits :: nat
  calls :: "timer_call list"

definition new_timer :: steady_timer where
  "new_timer = \<lparr>expiry = 0, pending_waits = 0, aborted_waits = 0, calls = []\<rparr>"

definition expires_at :: "time_point \<Rightarrow> steady_timer \<Rightarrow> steady_timer" where
  "expires_at t tm =
     tm\<lparr>expiry := t,
        aborted_waits := aborted_waits tm + pending_waits tm,
        pending_waits := 0,
        calls := calls tm @ [ExpiresAt t]\<rparr>"

definition async_wait :: "steady_timer \<Rightarrow> steady_timer" where
  "async_wait tm =
     tm\<lparr>pending_waits := pending_waits tm + 1, calls := calls tm @ [AsyncWait]\<rparr>"

subsection \<open>Scheduler state\<close>

text \<open>
  The members of \<^verbatim>\<open>AsioScheduler\<close>. \<open>rqueue_arr\<close> is the array of
  \<^verbatim>\<open>NUM_NICE_LEVELS + 1\<close> intrusive queues; a queue is the list of the contexts linked
  in it, head first. \<open>ready_cnt\<close> (\<^verbatim>\<open>size_t\<close>) and \<open>last_nice_level\<close> (\<^verbatim>\<open>uint32_t\<close>)
  are natural numbers: the first is only decremented behind \<^verbatim>\<open>DCHECK_GT(ready_cnt_, 0)\<close>
  and counts linked context objects, the second never exceeds \<^verbatim>\<open>NUM_NICE_LEVELS\<close>.
  \<open>switch_cnt\<close> (\<^verbatim>\<open>size_t\<close>), \<open>mask\<close> (\<^verbatim>\<open>uint8_t\<close>) and the thread-local
  \<open>main_resumes\<close> (\<^verbatim>\<open>unsigned\<close>) are machine words.
  Two fields record what the source keeps outside the object: \<open>cnd_notifies\<close> counts the
  calls of \<^verbatim>\<open>cnd_.notify_one()\<close>, and \<open>main_loc\<close> is the place where \<^verbatim>\<open>MainLoop\<close>
  currently stands.
\<close>

datatype main_loc = AtLoopHead | InPoll | InWait | InRunOne | Exited

record sched =
  suspend_timer :: "steady_timer option"
  rqueue_arr :: "fiber_context list list"
  last_nice_level :: nat
  ready_cnt :: nat
  switch_cnt :: "64 word"
  mask :: "8 word"
  main_resumes :: "32 word"
  cnd_notifies :: nat
  main_loc :: main_loc

datatype error =
    AlreadyLinked
  | NiceOutOfRange
  | ReadyCntZero
  | PickedActive
  | PickedDispatcher
  | ReadyCntNotZero
  | NotDispatcher
  | TimerReleased
  | DeadlockDetected

text \<open>The constructor: a timer that was never armed, empty queues, all counters zero.\<close>

definition init :: "nat \<Rightarrow> sched" where
  "init mx =
     \<lparr>suspend_timer = Some new_timer,
      rqueue_arr = replicate (NUM_NICE_LEVELS mx + 1) [],
      last_nice_level = 0,
      ready_cnt = 0,
      switch_cnt = 0,
      mask = 0,
      main_resumes = 0,
      cnd_notifies = 0,
      main_loc = AtLoopHead\<rparr>"

subsection \<open>The intrusive ready hook\<close>

text \<open>
  \<^verbatim>\<open>ctx->ready_is_linked()\<close>, \<^verbatim>\<open>ctx->ready_unlink()\<close> and \<^verbatim>\<open>ctx->ready_link(rq)\<close>
  (tail insertion into the queue \<open>rq\<close>).
\<close>

definition ready_is_linked :: "fiber_context \<Rightarrow> sched \<Rightarrow> bool" where
  "ready_is_linked ctx s = (\<exists>q \<in> set (rqueue_arr s). ctx \<in> set q)"

definition ready_unlink :: "fiber_context \<Rightarrow> sched \<Rightarrow> sched" where
  "ready_unlink ctx s = s\<lparr>rqueue_arr := map (removeAll ctx) (rqueue_arr s)\<rparr>"

definition ready_link :: "fiber_context \<Rightarrow> nat \<Rightarrow> sched \<Rightarrow> sched" where
  "ready_link ctx rq s =
     s\<lparr>rqueue_arr := (rqueue_arr s)[rq := rqueue_arr s ! rq @ [ctx]]\<rparr>"

subsection \<open>Scheduler operations\<close>

definition has_ready_fibers :: "sched \<Rightarrow> bool" where
  "has_ready_fibers s = (0 < ready_cnt s)"

definition awakened :: "nat \<Rightarrow> fiber_context \<Rightarrow> IoFiberProperties \<Rightarrow> sched \<Rightarrow> error + sched" where
  "awakened mx ctx props s =
     (if ready_is_linked ctx s then Inl AlreadyLinked
      else if is_dispatcher ctx then Inr (ready_link ctx (mx + 1) s)
      else
        let nice = nice_level props in
        if \<not> nice < NUM_NICE_LEVELS mx then Inl NiceOutOfRange
        else
          let s1 = s\<lparr>ready_cnt := ready_cnt s + 1\<rparr>;
              s2 = (if last_nice_level s1 > nice then s1\<lparr>last_nice_level := nice\<rparr> else s1)
          in Inr (ready_link ctx nice s2))"

text \<open>
  The end of the successful branch of the loop of \<^verbatim>\<open>pick_next\<close>: under
  \<^verbatim>\<open>LOOP_SUSPEND\<close> the switch is counted, and beyond \<^verbatim>\<open>MAIN_SWITCH_LIMIT\<close> the
  condition variable is signalled and \<open>main_resumes\<close> raised.
\<close>

definition count_switch :: "sched \<Rightarrow> sched" where
  "count_switch s =
     (if mask s AND LOOP_SUSPEND \<noteq> 0 then
        let s1 = s\<lparr>switch_cnt := switch_cnt s + 1\<rparr> in
        if switch_cnt s1 > of_nat MAIN_SWITCH_LIMIT
        then s1\<lparr>cnd_notifies := cnd_notifies s1 + 1, main_resumes := main_resumes s1 + 1\<rparr>
        else s1
      else s)"

text \<open>
  The part of \<^verbatim>\<open>pick_next\<close> after the loop: the dispatcher slot. The source returns
  \<^verbatim>\<open>front()\<close> and removes with \<^verbatim>\<open>pop_back()\<close>.
\<close>

definition pick_dispatch :: "nat \<Rightarrow> sched \<Rightarrow> error + (fiber_context option \<times> sched)" where
  "pick_dispatch mx s =
     (if ready_cnt s \<noteq> 0 then Inl ReadyCntNotZero
      else
        let dispatch_q = rqueue_arr s ! (mx + 1) in
        if dispatch_q \<noteq> [] then
          Inr (Some (hd dispatch_q), s\<lparr>rqueue_arr := (rqueue_arr s)[mx + 1 := butlast dispatch_q]\<rparr>)
        else Inr (None, s))"

text \<open>
  \<^verbatim>\<open>pick_next\<close>: the loop over the worker queues from the cursor on, as a recursion on
  the cursor. \<open>active\<close> is \<^verbatim>\<open>fibers::context::active()\<close>, which the source compares
  with the context it has popped. The result is the returned context (\<open>None\<close> for
  \<^verbatim>\<open>nullptr\<close>) and the new state.
\<close>

function pick_next :: "nat \<Rightarrow> fiber_context \<Rightarrow> sched \<Rightarrow> error + (fiber_context option \<times> sched)" where
  "pick_next mx active s =
     (if last_nice_level s < NUM_NICE_LEVELS mx then
        let q = rqueue_arr s ! last_nice_level s in
        if q = [] then pick_next mx active (s\<lparr>last_nice_level := last_nice_level s + 1\<rparr>)
        else
          let ctx = hd q;
              s1 = s\<lparr>rqueue_arr := (rqueue_arr s)[last_nice_level s := tl q]\<rparr>
          in
          if active = ctx then Inl PickedActive
          else if is_dispatcher ctx then Inl PickedDispatcher
          else if \<not> ready_cnt s1 > 0 then Inl ReadyCntZero
          else Inr (Some ctx, count_switch (s1\<lparr>ready_cnt := ready_cnt s1 - 1\<rparr>))
      else pick_dispatch mx s)"
  by pat_completeness auto
termination
  by (relation "measure (\<lambda>(mx, active, s). NUM_NICE_LEVELS mx - last_nice_level s)") auto

declare pick_next.simps [simp del]

definition property_change :: "nat \<Rightarrow> fiber_context \<Rightarrow> IoFiberProperties \<Rightarrow> sched \<Rightarrow> error + sched" where
  "property_change mx ctx props s =
     (if \<not> ready_is_linked ctx s then Inr s
      else
        let s1 = ready_unlink ctx s in
        if \<not> is_dispatcher ctx then
          (if \<not> ready_cnt s1 > 0 then Inl ReadyCntZero
           else awakened mx ctx props (s1\<lparr>ready_cnt := ready_cnt s1 - 1\<rparr>))
        else awakened mx ctx props s1)"

text \<open>
  \<^verbatim>\<open>suspend_until\<close>: \<open>active\<close> is \<^verbatim>\<open>fibers::context::active()\<close>. The timer is reached
  through \<^verbatim>\<open>suspend_timer_\<close>, which \<^verbatim>\<open>MainLoop\<close> resets on exit.
\<close>

definition suspend_until :: "fiber_context \<Rightarrow> time_point \<Rightarrow> sched \<Rightarrow> error + sched" where
  "suspend_until active abs_time s =
     (if \<not> is_dispatcher active then Inl NotDispatcher
      else if time_point_max \<noteq> abs_time \<and> suspend_timer s = None then Inl TimerReleased
      else
        let s1 = (if time_point_max \<noteq> abs_time
                  then s\<lparr>suspend_timer :=
                           map_option (\<lambda>tm. async_wait (expires_at abs_time tm)) (suspend_timer s)\<rparr>
                  else s)
        in
        if mask s1 AND LOOP_RUN_ONE \<noteq> 0 then Inl DeadlockDetected
        else Inr (s1\<lparr>cnd_notifies := cnd_notifies s1 + 1\<rparr>))"

text \<open>\<^verbatim>\<open>notify\<close>: \<open>now\<close> is the value of \<^verbatim>\<open>std::chrono::steady_clock::now()\<close>.\<close>

definition notify :: "time_point \<Rightarrow> sched \<Rightarrow> sched" where
  "notify now s =
     (case suspend_timer s of
        None \<Rightarrow> s
      | Some tm \<Rightarrow> s\<lparr>suspend_timer := Some (expires_at now (async_wait tm))\<rparr>)"

text \<open>
  \<^verbatim>\<open>IoFiberProperties::SetNiceLevel\<close>: the change notification of the fiber runtime calls
  \<^verbatim>\<open>property_change\<close> with the context that owns the properties.
\<close>

definition SetNiceLevel ::
  "nat \<Rightarrow> nat \<Rightarrow> fiber_context \<Rightarrow> IoFiberProperties \<Rightarrow> sched \<Rightarrow> IoFiberProperties \<times> (error + sched)" where
  "SetNiceLevel mx p ctx props s =
     (let p' = min p mx in
      if p' \<noteq> nice_level props
      then (props\<lparr>nice_level := p'\<rparr>, property_change mx ctx (props\<lparr>nice_level := p'\<rparr>) s)
      else (props, Inr s))"

subsection \<open>MainLoop\<close>

text \<open>
  \<^verbatim>\<open>WaitTillFibersSuspend\<close> before and after \<^verbatim>\<open>cnd_.wait(lk)\<close>.
\<close>

definition WaitTillFibersSuspend_enter :: "sched \<Rightarrow> sched" where
  "WaitTillFibersSuspend_enter s =
     s\<lparr>mask := mask s OR LOOP_SUSPEND, switch_cnt := 0, main_loc := InWait\<rparr>"

definition WaitTillFibersSuspend_leave :: "sched \<Rightarrow> sched" where
  "WaitTillFibersSuspend_leave s =
     s\<lparr>mask := mask s AND NOT LOOP_SUSPEND, main_loc := AtLoopHead\<rparr>"

text \<open>
  One step of \<^verbatim>\<open>MainLoop\<close> from the place where it stands. \<open>stopped\<close> is the answer of
  \<^verbatim>\<open>io_cntx->stopped()\<close> and \<open>n\<close> the number of handlers that \<^verbatim>\<open>poll()\<close> or
  \<^verbatim>\<open>run_one()\<close> reports. While the loop is inside \<^verbatim>\<open>poll\<close>, \<^verbatim>\<open>run_one\<close> or
  \<^verbatim>\<open>cnd_.wait\<close>, handlers and other fibers run, so scheduler operations happen between the
  steps.
\<close>

definition MainLoop_step :: "bool \<Rightarrow> nat \<Rightarrow> sched \<Rightarrow> sched" where
  "MainLoop_step stopped n s =
     (case main_loc s of
        AtLoopHead \<Rightarrow>
          if stopped then s\<lparr>suspend_timer := None, main_loc := Exited\<rparr>
          else if has_ready_fibers s then s\<lparr>main_loc := InPoll\<rparr>
          else s\<lparr>mask := mask s OR LOOP_RUN_ONE, main_loc := InRunOne\<rparr>
      | InPoll \<Rightarrow> if n \<noteq> 0 then s else WaitTillFibersSuspend_enter s
      | InWait \<Rightarrow> WaitTillFibersSuspend_leave s
      | InRunOne \<Rightarrow>
          if n = 0
          then s\<lparr>mask := mask s AND NOT LOOP_RUN_ONE, suspend_timer := None, main_loc := Exited\<rparr>
          else s\<lparr>mask := mask s AND NOT LOOP_RUN_ONE, main_loc := AtLoopHead\<rparr>
      | Exited \<Rightarrow> s)"

subsection \<open>Runs\<close>

text \<open>
  A call of the scheduler interface or a step of \<^verbatim>\<open>MainLoop\<close>; a run executes a list of
  them from a state and stops at the first failed check.
\<close>

datatype op =
    Awakened fiber_context IoFiberProperties
  | PickNext fiber_context
  | PropertyChange fiber_context IoFiberProperties
  | SuspendUntil fiber_context time_point
  | Notify time_point
  | MainStep bool nat

fun exec :: "nat \<Rightarrow> op \<Rightarrow> sched \<Rightarrow> error + (fiber_context option \<times> sched)" where
  "exec mx (Awakened ctx props) s = map_sum id (Pair None) (awakened mx ctx props s)"
| "exec mx (PickNext active) s = pick_next mx active s"
| "exec mx (PropertyChange ctx props) s = map_sum id (Pair None) (property_change mx ctx props s)"
| "exec mx (SuspendUntil active t) s = map_sum id (Pair None) (suspend_until active t s)"
| "exec mx (Notify now) s = Inr (None, notify now s)"
| "exec mx (MainStep stopped n) s = Inr (None, MainLoop_step stopped n s)"

fun run :: "nat \<Rightarrow> op list \<Rightarrow> sched \<Rightarrow> error + sched" where
  "run mx [] s = Inr s"
| "run mx (x # xs) s =
     (case exec mx x s of Inl e \<Rightarrow> Inl e | Inr (r, s') \<Rightarrow> run mx xs s')"

definition the_dispatcher :: fiber_context where
  "the_dispatcher = Context 0 dispatcher_context"

section \<open>Definitions used in the statements and proofs\<close>

text \<open>The number of contexts linked in the worker queues \<open>0..MAX_NICE_LEVEL\<close>.\<close>

definition worker_total :: "nat \<Rightarrow> sched \<Rightarrow> nat" where
  "worker_total mx s = sum_list (map (\<lambda>i. length (rqueue_arr s ! i)) [0..<NUM_NICE_LEVELS mx])"

text \<open>
  Well-formed queues: the array has \<^verbatim>\<open>NUM_NICE_LEVELS + 1\<close> queues, a context is linked
  at most once (the intrusive hook allows no more), and the dispatcher slot holds
  dispatcher contexts and nothing else does.
\<close>

definition queues_ok :: "nat \<Rightarrow> fiber_context list list \<Rightarrow> bool" where
  "queues_ok mx qs \<longleftrightarrow>
     length qs = mx + 2 \<and>
     (\<forall>i<mx + 2. distinct (qs ! i)) \<and>
     (\<forall>i<mx + 2. \<forall>j<mx + 2. \<forall>c. c \<in> set (qs ! i) \<longrightarrow> c \<in> set (qs ! j) \<longrightarrow> i = j) \<and>
     (\<forall>i<mx + 2. \<forall>c\<in>set (qs ! i). is_dispatcher c \<longleftrightarrow> i = mx + 1)"

text \<open>
  The invariant of the scheduler: well-formed queues, \<open>ready_cnt\<close> counts the linked
  workers, and the cursor is not above a worker queue that is not empty.
\<close>

definition sched_inv :: "nat \<Rightarrow> sched \<Rightarrow> bool" where
  "sched_inv mx s \<longleftrightarrow>
     queues_ok mx (rqueue_arr s) \<and>
     ready_cnt s = worker_total mx s \<and>
     (\<forall>i<mx + 1. rqueue_arr s ! i \<noteq> [] \<longrightarrow> last_nice_level s \<le> i) \<and>
     last_nice_level s \<le> mx + 1"

text \<open>Some contexts and properties for the concrete runs below.\<close>

definition fiber_a :: fiber_context where "fiber_a = Context 1 worker_context"

definition fiber_b :: fiber_context where "fiber_b = Context 2 worker_context"

definition io_loop :: fiber_context where "io_loop = Context 3 main_context"

definition nice :: "nat \<Rightarrow> IoFiberProperties" where "nice n = \<lparr>nice_level = n\<rparr>"

text \<open>The context is linked exactly once in the whole array, in queue \<open>i\<close>.\<close>

definition linked_once_at :: "fiber_context \<Rightarrow> nat \<Rightarrow> sched \<Rightarrow> bool" where
  "linked_once_at ctx i s \<longleftrightarrow>
     i < length (rqueue_arr s) \<and>
     map (\<lambda>q. count_list q ctx) (rqueue_arr s) = (replicate (length (rqueue_arr s)) 0)[i := 1]"

text \<open>
  The invariant of \<^verbatim>\<open>MainLoop\<close>: \<open>mask\<close> is determined by the place where the loop
  stands, and the suspend timer is there until the loop has exited.
\<close>

definition loop_inv :: "sched \<Rightarrow> bool" where
  "loop_inv s \<longleftrightarrow>
     mask s = (case main_loc s of InWait \<Rightarrow> LOOP_SUSPEND | InRunOne \<Rightarrow> LOOP_RUN_ONE | _ \<Rightarrow> 0) \<and>
     (main_loc s = Exited \<or> suspend_timer s \<noteq> None)"

text \<open>
  A run that also records what each \<^verbatim>\<open>pick_next\<close> of the run returned, in order.
\<close>

fun run_picks :: "nat \<Rightarrow> op list \<Rightarrow> sched \<Rightarrow> error + (fiber_context option list \<times> sched)" where
  "run_picks mx [] s = Inr ([], s)"
| "run_picks mx (x # xs) s =
     (case exec mx x s of
        Inl e \<Rightarrow> Inl e
      | Inr (r, s1) \<Rightarrow>
          (case run_picks mx xs s1 of
             Inl e \<Rightarrow> Inl e
           | Inr (rs, s') \<Rightarrow> Inr ((case x of PickNext a \<Rightarrow> [r] | _ \<Rightarrow> []) @ rs, s')))"

text \<open>The calls that touch the ready queues.\<close>

fun is_queue_op :: "op \<Rightarrow> bool" where
  "is_queue_op (Awakened ctx props) = True"
| "is_queue_op (PickNext active) = True"
| "is_queue_op (PropertyChange ctx props) = True"
| "is_queue_op (SuspendUntil active t) = False"
| "is_queue_op (Notify now) = False"
| "is_queue_op (MainStep stopped n) = False"

text \<open>A successful worker dequeue: \<^verbatim>\<open>pick_next\<close> returned a context that is not the dispatcher.\<close>

fun is_worker_pick :: "fiber_context option \<Rightarrow> bool" where
  "is_worker_pick None = False"
| "is_worker_pick (Some ctx) = (\<not> is_dispatcher ctx)"

text \<open>The number of successful worker dequeues among the results of a run.\<close>

definition dequeues :: "fiber_context option list \<Rightarrow> nat" where
  "dequeues rs = length (filter is_worker_pick rs)"

definition worker :: "nat \<Rightarrow> fiber_context" where
  "worker n = Context n worker_context"

text \<open>A \<^verbatim>\<open>property_change\<close> call on the given context.\<close>

fun changes_nice :: "fiber_context \<Rightarrow> op \<Rightarrow> bool" where
  "changes_nice c (PropertyChange ctx props) = (c = ctx)"
| "changes_nice c (Awakened ctx props) = False"
| "changes_nice c (PickNext active) = False"
| "changes_nice c (SuspendUntil active t) = False"
| "changes_nice c (Notify now) = False"
| "changes_nice c (MainStep stopped n) = False"

text \<open>A \<^verbatim>\<open>pick_next\<close> call.\<close>

fun is_pick :: "op \<Rightarrow> bool" where
  "is_pick (PickNext active) = True"
| "is_pick (Awakened ctx props) = False"
| "is_pick (PropertyChange ctx props) = False"
| "is_pick (SuspendUntil active t) = False"
| "is_pick (Notify now) = False"
| "is_pick (MainStep stopped n) = False"

text \<open>Both contexts are linked in queue \<open>n\<close>, \<open>a\<close> nearer to the head than \<open>b\<close>.\<close>

definition queued_before :: "fiber_context \<Rightarrow> fiber_context \<Rightarrow> nat \<Rightarrow> sched \<Rightarrow> bool" where
  "queued_before a b n s \<longleftrightarrow> (\<exists>xs ys zs. rqueue_arr s ! n = xs @ a # ys @ b # zs)"

section \<open>The loop of \<^verbatim>\<open>pick_next\<close>\<close>

text \<open>
  The loop advances the cursor over empty queues and stops at the first queue that is
  not empty; when there is none below \<^verbatim>\<open>NUM_NICE_LEVELS\<close> it leaves the cursor there
  and turns to the dispatcher slot.
\<close>

lemma pick_next_found:
  assumes "last_nice_level s \<le> i" "i < NUM_NICE_LEVELS mx"
    and "\<forall>j. last_nice_level s \<le> j \<and> j < i \<longrightarrow> rqueue_arr s ! j = []"
    and "rqueue_arr s ! i \<noteq> []"
  shows "pick_next mx active s =
    (let ctx = hd (rqueue_arr s ! i) in
     if active = ctx then Inl PickedActive
     else if is_dispatcher ctx then Inl PickedDispatcher
     else if \<not> ready_cnt s > 0 then Inl ReadyCntZero
     else Inr (Some ctx,
       count_switch (s\<lparr>last_nice_level := i,
                       rqueue_arr := (rqueue_arr s)[i := tl (rqueue_arr s ! i)],
                       ready_cnt := ready_cnt s - 1\<rparr>)))"
  using assms
proof (induction mx active s rule: pick_next.induct)
  case (1 mx active s)
  show ?case
  proof (cases "rqueue_arr s ! last_nice_level s = []")
    case True
    with "1.prems" have ne: "last_nice_level s \<noteq> i" by auto
    with "1.prems" have lt: "last_nice_level s < i" by simp
    have "pick_next mx active s = pick_next mx active (s\<lparr>last_nice_level := last_nice_level s + 1\<rparr>)"
      using True lt "1.prems"(2) by (subst pick_next.simps) simp
    also have "\<dots> = (let ctx = hd (rqueue_arr s ! i) in
     if active = ctx then Inl PickedActive
     else if is_dispatcher ctx then Inl PickedDispatcher
     else if \<not> ready_cnt s > 0 then Inl ReadyCntZero
     else Inr (Some ctx,
       count_switch (s\<lparr>last_nice_level := i,
                       rqueue_arr := (rqueue_arr s)[i := tl (rqueue_arr s ! i)],
                       ready_cnt := ready_cnt s - 1\<rparr>)))"
      using "1.IH"[OF _ refl True] lt "1.prems" by (simp add: Let_def)
    finally show ?thesis .
  next
    case False
    with "1.prems" have "last_nice_level s = i"
      by (metis le_neq_implies_less order_refl)
    then have eq: "s\<lparr>last_nice_level := i\<rparr> = s" by simp
    show ?thesis using False "1.prems"(2) \<open>last_nice_level s = i\<close>
      by (subst pick_next.simps, subst (3) eq [symmetric]) (simp add: Let_def)
  qed
qed

lemma pick_next_none:
  assumes "\<forall>j. last_nice_level s \<le> j \<and> j < NUM_NICE_LEVELS mx \<longrightarrow> rqueue_arr s ! j = []"
  shows "pick_next mx active s =
     pick_dispatch mx (s\<lparr>last_nice_level := max (last_nice_level s) (NUM_NICE_LEVELS mx)\<rparr>)"
  using assms
proof (induction mx active s rule: pick_next.induct)
  case (1 mx active s)
  show ?case
  proof (cases "last_nice_level s < NUM_NICE_LEVELS mx")
    case True
    then have e: "rqueue_arr s ! last_nice_level s = []" using "1.prems" by simp
    have "pick_next mx active s = pick_next mx active (s\<lparr>last_nice_level := last_nice_level s + 1\<rparr>)"
      using True e by (subst pick_next.simps) simp
    also have "\<dots> = pick_dispatch mx (s\<lparr>last_nice_level := max (last_nice_level s) (NUM_NICE_LEVELS mx)\<rparr>)"
      using "1.IH"[OF True refl e] "1.prems" True by (simp add: max_def)
    finally show ?thesis .
  next
    case False
    then show ?thesis by (subst pick_next.simps) (simp add: max_def)
  qed
qed

section \<open>Well-formed ready queues\<close>

lemma ready_is_linked_nth:
  "length (rqueue_arr s) = n \<Longrightarrow> ready_is_linked c s \<longleftrightarrow> (\<exists>i<n. c \<in> set (rqueue_arr s ! i))"
  unfolding ready_is_linked_def by (metis in_set_conv_nth)

lemma queues_ok_link:
  assumes "queues_ok mx qs" "i < mx + 2" "\<forall>j<mx + 2. c \<notin> set (qs ! j)"
    "is_dispatcher c \<longleftrightarrow> i = mx + 1"
  shows "queues_ok mx (qs[i := qs ! i @ [c]])"
  using assms unfolding queues_ok_def
  by (auto simp: nth_list_update)

lemma queues_ok_shrink:
  assumes ok: "queues_ok mx qs" and i: "i < mx + 2"
    and d: "distinct v" and sub: "set v \<subseteq> set (qs ! i)"
  shows "queues_ok mx (qs[i := v])"
proof -
  have len: "length qs = mx + 2" using ok by (simp add: queues_ok_def)
  have nth: "\<And>j. j < mx + 2 \<Longrightarrow> qs[i := v] ! j = (if j = i then v else qs ! j)"
    using len by (simp add: nth_list_update)
  have sub': "\<And>j. j < mx + 2 \<Longrightarrow> set (qs[i := v] ! j) \<subseteq> set (qs ! j)"
    using nth sub by auto
  have "\<forall>j<mx + 2. distinct (qs[i := v] ! j)"
    using ok d nth by (simp add: queues_ok_def)
  moreover have "\<forall>j<mx + 2. \<forall>k<mx + 2. \<forall>c. c \<in> set (qs[i := v] ! j) \<longrightarrow>
      c \<in> set (qs[i := v] ! k) \<longrightarrow> j = k"
  proof (intro allI impI)
    fix j k c
    assume j: "j < mx + 2" and k: "k < mx + 2"
      and cj: "c \<in> set (qs[i := v] ! j)" and ck: "c \<in> set (qs[i := v] ! k)"
    have "c \<in> set (qs ! j)" "c \<in> set (qs ! k)"
      using sub' [OF j] sub' [OF k] cj ck by auto
    with ok j k show "j = k" unfolding queues_ok_def by blast
  qed
  moreover have "\<forall>j<mx + 2. \<forall>c\<in>set (qs[i := v] ! j). is_dispatcher c \<longleftrightarrow> j = mx + 1"
  proof (intro allI impI ballI)
    fix j c
    assume j: "j < mx + 2" and cj: "c \<in> set (qs[i := v] ! j)"
    have "c \<in> set (qs ! j)" using sub' [OF j] cj by auto
    with ok j show "is_dispatcher c \<longleftrightarrow> j = mx + 1" unfolding queues_ok_def by blast
  qed
  ultimately show ?thesis using len by (simp add: queues_ok_def)
qed

lemma queues_ok_tl:
  assumes "queues_ok mx qs" "i < mx + 2"
  shows "queues_ok mx (qs[i := tl (qs ! i)])"
proof (rule queues_ok_shrink [OF assms])
  show "distinct (tl (qs ! i))" using assms by (simp add: queues_ok_def distinct_tl)
  show "set (tl (qs ! i)) \<subseteq> set (qs ! i)" by (cases "qs ! i") auto
qed

lemma queues_ok_butlast:
  assumes "queues_ok mx qs" "i < mx + 2"
  shows "queues_ok mx (qs[i := butlast (qs ! i)])"
proof (rule queues_ok_shrink [OF assms])
  show "distinct (butlast (qs ! i))" using assms by (simp add: queues_ok_def distinct_butlast)
  show "set (butlast (qs ! i)) \<subseteq> set (qs ! i)" by (auto dest: in_set_butlastD)
qed

lemma queues_ok_unlink:
  assumes "queues_ok mx qs"
  shows "queues_ok mx (map (removeAll c) qs)"
  using assms unfolding queues_ok_def
  by (auto simp: distinct_removeAll)

lemma worker_total_sum: "worker_total mx s = (\<Sum>i<Suc mx. length (rqueue_arr s ! i))"
  by (simp add: worker_total_def NUM_NICE_LEVELS_def interv_sum_list_conv_sum_set_nat atLeast0LessThan)

lemma worker_total_update:
  assumes "i < mx + 1" and True: "i < length (rqueue_arr s)"
  shows "worker_total mx (s\<lparr>rqueue_arr := (rqueue_arr s)[i := v]\<rparr>) + length (rqueue_arr s ! i)
       = worker_total mx s + length v"
proof -
  have fin: "finite {..<Suc mx}" and mem: "i \<in> {..<Suc mx}" using assms by auto
  have "(\<Sum>j<Suc mx. length ((rqueue_arr s)[i := v] ! j))
      = length v + (\<Sum>j\<in>{..<Suc mx} - {i}. length ((rqueue_arr s)[i := v] ! j))"
    using True by (simp only: sum.remove [OF fin mem] nth_list_update_eq)
  also have "(\<Sum>j\<in>{..<Suc mx} - {i}. length ((rqueue_arr s)[i := v] ! j))
      = (\<Sum>j\<in>{..<Suc mx} - {i}. length (rqueue_arr s ! j))"
    by (rule sum.cong) auto
  finally have "(\<Sum>j<Suc mx. length ((rqueue_arr s)[i := v] ! j)) + length (rqueue_arr s ! i)
      = (\<Sum>j<Suc mx. length (rqueue_arr s ! j)) + length v"
    by (simp only: sum.remove [OF fin mem, of "\<lambda>j. length (rqueue_arr s ! j)"])
  then show ?thesis by (simp add: worker_total_sum)
qed

lemma worker_total_update_dispatch:
  "worker_total mx (s\<lparr>rqueue_arr := (rqueue_arr s)[mx + 1 := v]\<rparr>) = worker_total mx s"
  by (simp add: worker_total_sum)

lemma worker_total_frame:
  "rqueue_arr s' = rqueue_arr s \<Longrightarrow> worker_total mx s' = worker_total mx s"
  by (simp add: worker_total_def)

lemma worker_total_unlink:
  assumes "queues_ok mx (rqueue_arr s)"
  shows "worker_total mx (ready_unlink c s) + (if ready_is_linked c s \<and> \<not> is_dispatcher c then 1 else 0)
       = worker_total mx s"
proof (cases "\<exists>k<mx + 1. c \<in> set (rqueue_arr s ! k)")
  case True
  then obtain k where k: "k < mx + 1" "c \<in> set (rqueue_arr s ! k)" by blast
  have len: "length (rqueue_arr s) = mx + 2" using assms by (simp add: queues_ok_def)
  have nd: "\<not> is_dispatcher c" using assms k unfolding queues_ok_def
    by (metis add_less_mono1 less_add_one less_irrefl_nat less_trans one_add_one add.assoc)
  have "k < mx + 2" using k by simp
  then have linked: "ready_is_linked c s" using k(2) ready_is_linked_nth [OF len] by blast
  have fin: "finite {..<Suc mx}" and mem: "k \<in> {..<Suc mx}" using k by auto
  have other: "\<And>j. j < mx + 1 \<Longrightarrow> j \<noteq> k \<Longrightarrow> c \<notin> set (rqueue_arr s ! j)"
    using assms k unfolding queues_ok_def
    by (metis add_less_mono1 less_add_one less_trans one_add_one add.assoc)
  have dk: "distinct (rqueue_arr s ! k)" using assms k unfolding queues_ok_def by auto
  have lk: "length (removeAll c (rqueue_arr s ! k)) + 1 = length (rqueue_arr s ! k)"
    using dk k(2) by (metis distinct_remove1_removeAll length_remove1 length_pos_if_in_set
        Suc_pred' Suc_eq_plus1)
  have "(\<Sum>j<Suc mx. length (removeAll c (rqueue_arr s ! j)))
      = length (removeAll c (rqueue_arr s ! k))
        + (\<Sum>j\<in>{..<Suc mx} - {k}. length (removeAll c (rqueue_arr s ! j)))"
    by (simp only: sum.remove [OF fin mem])
  also have "(\<Sum>j\<in>{..<Suc mx} - {k}. length (removeAll c (rqueue_arr s ! j)))
      = (\<Sum>j\<in>{..<Suc mx} - {k}. length (rqueue_arr s ! j))"
    using other by (intro sum.cong) (auto simp: removeAll_id)
  finally have "(\<Sum>j<Suc mx. length (removeAll c (rqueue_arr s ! j))) + 1
      = (\<Sum>j<Suc mx. length (rqueue_arr s ! j))"
    using lk by (simp only: sum.remove [OF fin mem, of "\<lambda>j. length (rqueue_arr s ! j)"])
  moreover have "\<And>j. j < Suc mx \<Longrightarrow> map (removeAll c) (rqueue_arr s) ! j = removeAll c (rqueue_arr s ! j)"
    using len by simp
  ultimately show ?thesis using linked nd
    by (simp add: worker_total_sum ready_unlink_def)
next
  case False
  have len: "length (rqueue_arr s) = mx + 2" using assms by (simp add: queues_ok_def)
  have "ready_is_linked c s \<Longrightarrow> is_dispatcher c"
  proof -
    assume "ready_is_linked c s"
    then obtain i where i: "i < mx + 2" "c \<in> set (rqueue_arr s ! i)"
      using len by (auto simp: ready_is_linked_nth)
    with False have "i = mx + 1" by (metis Suc_eq_plus1 add_2_eq_Suc' less_Suc_eq)
    with assms i show ?thesis unfolding queues_ok_def by auto
  qed
  moreover have "(\<Sum>j<Suc mx. length (removeAll c (rqueue_arr s ! j)))
      = (\<Sum>j<Suc mx. length (rqueue_arr s ! j))"
    using False by (intro sum.cong) (auto simp: removeAll_id)
  moreover have "\<And>j. j < Suc mx \<Longrightarrow> map (removeAll c) (rqueue_arr s) ! j = removeAll c (rqueue_arr s ! j)"
    using len by simp
  ultimately show ?thesis
    by (auto simp add: worker_total_sum ready_unlink_def)
qed

section \<open>The invariant is kept by every operation\<close>

lemma awakened_Inr:
  "awakened mx c p s = Inr s' \<longleftrightarrow>
     \<not> ready_is_linked c s \<and>
     (if is_dispatcher c
      then s' = s\<lparr>rqueue_arr := (rqueue_arr s)[mx + 1 := rqueue_arr s ! (mx + 1) @ [c]]\<rparr>
      else nice_level p < mx + 1 \<and>
           s' = s\<lparr>ready_cnt := ready_cnt s + 1,
                  last_nice_level := min (last_nice_level s) (nice_level p),
                  rqueue_arr := (rqueue_arr s)[nice_level p := rqueue_arr s ! nice_level p @ [c]]\<rparr>)"
  by (auto simp: awakened_def ready_link_def NUM_NICE_LEVELS_def Let_def min_def)

lemma count_switch_frame [simp]:
  "rqueue_arr (count_switch s) = rqueue_arr s"
  "ready_cnt (count_switch s) = ready_cnt s"
  "last_nice_level (count_switch s) = last_nice_level s"
  "mask (count_switch s) = mask s"
  "main_loc (count_switch s) = main_loc s"
  "suspend_timer (count_switch s) = suspend_timer s"
  by (simp_all add: count_switch_def Let_def)

lemma sched_inv_cong:
  "rqueue_arr s' = rqueue_arr s \<Longrightarrow> ready_cnt s' = ready_cnt s \<Longrightarrow>
   last_nice_level s' = last_nice_level s \<Longrightarrow> sched_inv mx s' = sched_inv mx s"
  by (simp add: sched_inv_def worker_total_def)

lemma sched_inv_count_switch [simp]:
  "sched_inv mx (count_switch s) = sched_inv mx s"
  by (rule sched_inv_cong) simp_all

lemma worker_total_ge:
  "i < mx + 1 \<Longrightarrow> length (rqueue_arr s ! i) \<le> worker_total mx s"
proof -
  assume "i < mx + 1"
  then have "i \<in> {..<Suc mx}" by simp
  then have "length (rqueue_arr s ! i) \<le> (\<Sum>j<Suc mx. length (rqueue_arr s ! j))"
    by (intro member_le_sum) auto
  then show ?thesis by (simp only: worker_total_sum)
qed

lemma worker_total_zero:
  "worker_total mx s = 0 \<longleftrightarrow> (\<forall>i<mx + 1. rqueue_arr s ! i = [])"
  by (auto simp: worker_total_sum less_Suc_eq)

lemma sched_inv_awakened:
  assumes inv: "sched_inv mx s" and aw: "awakened mx c p s = Inr s'"
  shows "sched_inv mx s'"
proof -
  have ok: "queues_ok mx (rqueue_arr s)" using inv by (simp add: sched_inv_def)
  then have len: "length (rqueue_arr s) = mx + 2" by (simp add: queues_ok_def)
  have nl: "\<forall>j<mx + 2. c \<notin> set (rqueue_arr s ! j)"
    using aw ready_is_linked_nth [OF len, of c] by (simp add: awakened_Inr)
  show ?thesis
  proof (cases "is_dispatcher c")
    case True
    then have s': "s' = s\<lparr>rqueue_arr := (rqueue_arr s)[mx + 1 := rqueue_arr s ! (mx + 1) @ [c]]\<rparr>"
      using aw by (simp add: awakened_Inr)
    have "queues_ok mx (rqueue_arr s')"
      unfolding s' using queues_ok_link [OF ok _ nl, of "mx + 1"] True by simp
    moreover have "worker_total mx s' = worker_total mx s"
      unfolding s' by (rule worker_total_update_dispatch)
    ultimately show ?thesis using inv
      by (simp add: sched_inv_def) (simp add: s')
  next
    case False
    let ?n = "nice_level p"
    from False aw have n: "?n < mx + 1"
      and s': "s' = s\<lparr>ready_cnt := ready_cnt s + 1,
                  last_nice_level := min (last_nice_level s) ?n,
                  rqueue_arr := (rqueue_arr s)[?n := rqueue_arr s ! ?n @ [c]]\<rparr>"
      by (simp_all add: awakened_Inr)
    have "queues_ok mx (rqueue_arr s')"
      unfolding s' using queues_ok_link [OF ok _ nl, of ?n] False n by simp
    moreover have "worker_total mx s' = worker_total mx s + 1"
    proof -
      have "worker_total mx s' = worker_total mx (s\<lparr>rqueue_arr := (rqueue_arr s)[?n := rqueue_arr s ! ?n @ [c]]\<rparr>)"
        unfolding s' by (simp add: worker_total_def)
      then show ?thesis
        using worker_total_update [OF n, of s "rqueue_arr s ! ?n @ [c]"] len n by simp
    qed
    moreover have "\<forall>i<mx + 1. rqueue_arr s' ! i \<noteq> [] \<longrightarrow> last_nice_level s' \<le> i"
      using inv len n unfolding s' sched_inv_def
      by (auto simp: nth_list_update min_def)
    moreover have "last_nice_level s' \<le> mx + 1"
      using n unfolding s' by simp
    ultimately show ?thesis using inv
      by (simp add: sched_inv_def) (simp add: s')
  qed
qed

lemma lowest_nonempty:
  assumes "\<exists>i<n. qs ! i \<noteq> []"
  shows "\<exists>i<n. qs ! i \<noteq> [] \<and> (\<forall>j<i. qs ! j = [])"
proof -
  let ?P = "\<lambda>i. i < n \<and> qs ! i \<noteq> []"
  from assms have ex: "\<exists>i. ?P i" by blast
  have "?P (LEAST i. ?P i)" using ex by (rule LeastI_ex)
  moreover have "\<forall>j<(LEAST i. ?P i). qs ! j = []"
  proof (intro allI impI)
    fix j assume j: "j < (LEAST i. ?P i)"
    then have "\<not> ?P j" by (rule not_less_Least)
    moreover have "j < n" using j \<open>?P (LEAST i. ?P i)\<close> by simp
    ultimately show "qs ! j = []" by simp
  qed
  ultimately show ?thesis by blast
qed

lemma pick_next_worker:
  assumes inv: "sched_inv mx s" and i: "i < mx + 1"
    and ne: "rqueue_arr s ! i \<noteq> []" and lo: "\<forall>j<i. rqueue_arr s ! j = []"
  shows "pick_next mx active s =
     (if active = hd (rqueue_arr s ! i) then Inl PickedActive
      else Inr (Some (hd (rqueue_arr s ! i)),
        count_switch (s\<lparr>last_nice_level := i,
                        rqueue_arr := (rqueue_arr s)[i := tl (rqueue_arr s ! i)],
                        ready_cnt := ready_cnt s - 1\<rparr>)))"
proof -
  have ok: "queues_ok mx (rqueue_arr s)" using inv by (simp add: sched_inv_def)
  have le: "last_nice_level s \<le> i" using inv i ne by (simp add: sched_inv_def)
  have hd_in: "hd (rqueue_arr s ! i) \<in> set (rqueue_arr s ! i)" using ne by simp
  have nd: "\<not> is_dispatcher (hd (rqueue_arr s ! i))"
    using ok i hd_in unfolding queues_ok_def
    by (metis add_less_mono1 less_add_one less_irrefl_nat less_trans one_add_one add.assoc)
  have "0 < length (rqueue_arr s ! i)" using ne by simp
  then have "0 < worker_total mx s"
    using worker_total_ge [OF i, of s] by linarith
  then have pos: "0 < ready_cnt s"
    using inv by (simp add: sched_inv_def)
  show ?thesis
    using pick_next_found [of s i mx active] le i ne lo nd pos
    by (simp add: NUM_NICE_LEVELS_def Let_def)
qed

lemma pick_next_idle:
  assumes inv: "sched_inv mx s" and em: "\<forall>i<mx + 1. rqueue_arr s ! i = []"
  shows "pick_next mx active s =
     (if rqueue_arr s ! (mx + 1) \<noteq> []
      then Inr (Some (hd (rqueue_arr s ! (mx + 1))),
             s\<lparr>last_nice_level := mx + 1,
               rqueue_arr := (rqueue_arr s)[mx + 1 := butlast (rqueue_arr s ! (mx + 1))]\<rparr>)
      else Inr (None, s\<lparr>last_nice_level := mx + 1\<rparr>))"
proof -
  have "ready_cnt s = 0" using inv em worker_total_zero [of mx s] by (simp add: sched_inv_def)
  moreover have "max (last_nice_level s) (mx + 1) = mx + 1"
    using inv by (simp add: sched_inv_def max_def)
  ultimately show ?thesis
    using pick_next_none [of s mx active] em
    by (simp add: NUM_NICE_LEVELS_def pick_dispatch_def Let_def)
qed

lemma sched_inv_pick_next:
  assumes inv: "sched_inv mx s" and pk: "pick_next mx active s = Inr (r, s')"
  shows "sched_inv mx s'"
proof (cases "\<exists>i<mx + 1. rqueue_arr s ! i \<noteq> []")
  case True
  from lowest_nonempty [OF True] obtain i where i: "i < mx + 1"
    and ne: "rqueue_arr s ! i \<noteq> []" and lo: "\<forall>j<i. rqueue_arr s ! j = []" by blast
  let ?s1 = "s\<lparr>last_nice_level := i,
                rqueue_arr := (rqueue_arr s)[i := tl (rqueue_arr s ! i)],
                ready_cnt := ready_cnt s - 1\<rparr>"
  have s': "s' = count_switch ?s1"
    using pk pick_next_worker [OF inv i ne lo, of active] by (simp split: if_splits)
  have ok: "queues_ok mx (rqueue_arr s)" using inv by (simp add: sched_inv_def)
  then have len: "length (rqueue_arr s) = mx + 2" by (simp add: queues_ok_def)
  have "queues_ok mx (rqueue_arr ?s1)" using queues_ok_tl [OF ok, of i] i by simp
  moreover have "worker_total mx ?s1 + 1 = worker_total mx s"
  proof -
    have "worker_total mx ?s1 = worker_total mx (s\<lparr>rqueue_arr := (rqueue_arr s)[i := tl (rqueue_arr s ! i)]\<rparr>)"
      by (simp add: worker_total_def)
    moreover have "length (tl (rqueue_arr s ! i)) + 1 = length (rqueue_arr s ! i)"
      using ne by (cases "rqueue_arr s ! i") auto
    ultimately show ?thesis
      using worker_total_update [OF i, of s "tl (rqueue_arr s ! i)"] len i by simp
  qed
  moreover have "\<forall>k<mx + 1. rqueue_arr ?s1 ! k \<noteq> [] \<longrightarrow> last_nice_level ?s1 \<le> k"
  proof (intro allI impI)
    fix k assume k: "k < mx + 1" and kne: "rqueue_arr ?s1 ! k \<noteq> []"
    have "rqueue_arr s ! k \<noteq> []" using kne len k by (cases "k = i") (auto simp: nth_list_update)
    with lo have "\<not> k < i" by auto
    then show "last_nice_level ?s1 \<le> k" by simp
  qed
  ultimately have "sched_inv mx ?s1" using inv i by (simp add: sched_inv_def)
  then show ?thesis unfolding s' by (simp only: sched_inv_count_switch)
next
  case False
  then have em: "\<forall>i<mx + 1. rqueue_arr s ! i = []" by simp
  have ok: "queues_ok mx (rqueue_arr s)" using inv by (simp add: sched_inv_def)
  have z: "worker_total mx s = 0" using em by (simp add: worker_total_zero)
  have ready: "ready_cnt s = 0" using inv z by (simp add: sched_inv_def)
  show ?thesis
  proof (cases "rqueue_arr s ! (mx + 1) \<noteq> []")
    case True
    then have s': "s' = s\<lparr>last_nice_level := mx + 1,
               rqueue_arr := (rqueue_arr s)[mx + 1 := butlast (rqueue_arr s ! (mx + 1))]\<rparr>"
      using pk pick_next_idle [OF inv em, of active] by simp
    have "queues_ok mx (rqueue_arr s')" unfolding s' using queues_ok_butlast [OF ok, of "mx + 1"] by simp
    moreover have "worker_total mx s' = 0"
      unfolding s' using em by (simp add: worker_total_zero)
    moreover have "\<forall>k<mx + 1. rqueue_arr s' ! k = []" unfolding s' using em by simp
    ultimately show ?thesis using ready by (simp add: sched_inv_def) (simp add: s')
  next
    case False
    then have s': "s' = s\<lparr>last_nice_level := mx + 1\<rparr>"
      using pk pick_next_idle [OF inv em, of active] by simp
    have "worker_total mx s' = 0" unfolding s' using em by (simp add: worker_total_zero)
    then show ?thesis using ok ready em by (simp add: sched_inv_def) (simp add: s')
  qed
qed

lemma ready_unlink_not_linked: "\<not> ready_is_linked c (ready_unlink c s)"
  by (simp add: ready_is_linked_def ready_unlink_def)

lemma ready_is_linked_frame:
  "rqueue_arr s' = rqueue_arr s \<Longrightarrow> ready_is_linked c s' = ready_is_linked c s"
  by (simp add: ready_is_linked_def)

lemma sched_inv_unlink:
  assumes inv: "sched_inv mx s"
  shows "sched_inv mx ((ready_unlink c s)\<lparr>ready_cnt :=
           ready_cnt s - (if ready_is_linked c s \<and> \<not> is_dispatcher c then 1 else 0)\<rparr>)"
    (is "sched_inv mx ?s1")
proof -
  have ok: "queues_ok mx (rqueue_arr s)" using inv by (simp add: sched_inv_def)
  then have len: "length (rqueue_arr s) = mx + 2" by (simp add: queues_ok_def)
  have q: "rqueue_arr ?s1 = map (removeAll c) (rqueue_arr s)" by (simp add: ready_unlink_def)
  have "queues_ok mx (rqueue_arr ?s1)" unfolding q by (rule queues_ok_unlink [OF ok])
  moreover have "worker_total mx ?s1 = worker_total mx (ready_unlink c s)"
    by (simp add: worker_total_def)
  then have "ready_cnt ?s1 = worker_total mx ?s1"
    using worker_total_unlink [OF ok, of c] inv by (simp add: sched_inv_def)
  moreover have "\<forall>i<mx + 1. rqueue_arr ?s1 ! i \<noteq> [] \<longrightarrow> last_nice_level ?s1 \<le> i"
  proof (intro allI impI)
    fix i assume i: "i < mx + 1" and ne: "rqueue_arr ?s1 ! i \<noteq> []"
    have "rqueue_arr ?s1 ! i = removeAll c (rqueue_arr s ! i)" using len i by (simp add: q)
    with ne have "rqueue_arr s ! i \<noteq> []" by auto
    with inv i show "last_nice_level ?s1 \<le> i" by (simp add: sched_inv_def ready_unlink_def)
  qed
  moreover have "last_nice_level ?s1 \<le> mx + 1"
    using inv by (simp add: sched_inv_def ready_unlink_def)
  ultimately show ?thesis by (simp add: sched_inv_def)
qed

lemma linked_worker_ready_cnt:
  assumes inv: "sched_inv mx s" and l: "ready_is_linked c s" and nd: "\<not> is_dispatcher c"
  shows "0 < ready_cnt s"
  using worker_total_unlink [of mx s c] inv l nd by (simp add: sched_inv_def)

lemma property_change_linked:
  assumes inv: "sched_inv mx s" and l: "ready_is_linked c s"
  shows "property_change mx c p s =
     awakened mx c p ((ready_unlink c s)\<lparr>ready_cnt :=
           ready_cnt s - (if ready_is_linked c s \<and> \<not> is_dispatcher c then 1 else 0)\<rparr>)"
proof (cases "is_dispatcher c")
  case True
  have "(ready_unlink c s)\<lparr>ready_cnt := ready_cnt s\<rparr> = ready_unlink c s"
    by (simp add: ready_unlink_def)
  then show ?thesis using l True by (simp add: property_change_def Let_def)
next
  case False
  have "0 < ready_cnt s" by (rule linked_worker_ready_cnt [OF inv l False])
  then show ?thesis using l False by (simp add: property_change_def Let_def ready_unlink_def)
qed

lemma sched_inv_property_change:
  assumes inv: "sched_inv mx s" and pc: "property_change mx c p s = Inr s'"
  shows "sched_inv mx s'"
proof (cases "ready_is_linked c s")
  case False
  then show ?thesis using inv pc by (simp add: property_change_def)
next
  case True
  show ?thesis
    using pc sched_inv_awakened [OF sched_inv_unlink [OF inv, of c], of c p s']
    by (simp only: property_change_linked [OF inv True])
qed

lemma init_queues: "i < mx + 2 \<Longrightarrow> rqueue_arr (init mx) ! i = []"
proof -
  assume i: "i < mx + 2"
  have "rqueue_arr (init mx) = replicate (mx + 2) []"
    by (simp add: init_def NUM_NICE_LEVELS_def)
  then show ?thesis using i by (simp only: nth_replicate)
qed

lemma sched_inv_init: "sched_inv mx (init mx)"
proof -
  have "length (rqueue_arr (init mx)) = mx + 2" by (simp add: init_def NUM_NICE_LEVELS_def)
  moreover have "worker_total mx (init mx) = 0"
    by (simp only: worker_total_zero) (simp add: init_queues)
  moreover have "ready_cnt (init mx) = 0" "last_nice_level (init mx) = 0"
    by (simp_all add: init_def)
  ultimately show ?thesis
    by (simp add: sched_inv_def queues_ok_def init_queues)
qed

lemma sched_inv_suspend_until:
  "sched_inv mx s \<Longrightarrow> suspend_until a t s = Inr s' \<Longrightarrow> sched_inv mx s'"
  by (auto simp: suspend_until_def Let_def split: if_splits elim!: sched_inv_cong [THEN iffD2, rotated -1])

lemma sched_inv_notify: "sched_inv mx s \<Longrightarrow> sched_inv mx (notify now s)"
  by (auto simp: notify_def split: option.splits elim!: sched_inv_cong [THEN iffD2, rotated -1])

lemma sched_inv_MainLoop_step: "sched_inv mx s \<Longrightarrow> sched_inv mx (MainLoop_step st n s)"
  by (auto simp: MainLoop_step_def WaitTillFibersSuspend_enter_def WaitTillFibersSuspend_leave_def
      split: main_loc.splits elim!: sched_inv_cong [THEN iffD2, rotated -1])

lemma sched_inv_exec:
  "sched_inv mx s \<Longrightarrow> exec mx x s = Inr (r, s') \<Longrightarrow> sched_inv mx s'"
proof (cases x)
  case (Awakened c p)
  assume "sched_inv mx s" "exec mx x s = Inr (r, s')"
  then show ?thesis using Awakened sched_inv_awakened [of mx s c p s']
    by (cases "awakened mx c p s") auto
next
  case (PickNext a)
  assume "sched_inv mx s" "exec mx x s = Inr (r, s')"
  then show ?thesis using PickNext sched_inv_pick_next [of mx s a r s'] by simp
next
  case (PropertyChange c p)
  assume "sched_inv mx s" "exec mx x s = Inr (r, s')"
  then show ?thesis using PropertyChange sched_inv_property_change [of mx s c p s']
    by (cases "property_change mx c p s") auto
next
  case (SuspendUntil a t)
  assume "sched_inv mx s" "exec mx x s = Inr (r, s')"
  then show ?thesis using SuspendUntil sched_inv_suspend_until [of mx s a t s']
    by (cases "suspend_until a t s") auto
next
  case (Notify now)
  assume "sched_inv mx s" "exec mx x s = Inr (r, s')"
  then show ?thesis using Notify sched_inv_notify [of mx s now] by auto
next
  case (MainStep st n)
  assume "sched_inv mx s" "exec mx x s = Inr (r, s')"
  then show ?thesis using MainStep sched_inv_MainLoop_step [of mx s st n] by auto
qed

lemma sched_inv_run:
  "sched_inv mx s \<Longrightarrow> run mx xs s = Inr s' \<Longrightarrow> sched_inv mx s'"
proof (induction xs arbitrary: s)
  case Nil
  then show ?case by simp
next
  case (Cons x xs)
  from Cons.prems(2) obtain r s1 where e: "exec mx x s = Inr (r, s1)" and r: "run mx xs s1 = Inr s'"
    by (auto split: sum.splits)
  from sched_inv_exec [OF Cons.prems(1) e] have "sched_inv mx s1" .
  then show ?case using r by (rule Cons.IH)
qed

lemma reachable_inv: "run mx xs (init mx) = Inr s \<Longrightarrow> sched_inv mx s"
  using sched_inv_run [OF sched_inv_init] .

section \<open>The ready count and the scan cursor\<close>

lemma worker_queue_nonempty_nth:
  assumes "length qs = mx + 2"
  shows "(\<exists>q\<in>set (take (NUM_NICE_LEVELS mx) qs). q \<noteq> []) \<longleftrightarrow> (\<exists>i<mx + 1. qs ! i \<noteq> [])"
proof -
  have l: "length (take (mx + 1) qs) = mx + 1" using assms by simp
  have "(\<exists>q\<in>set (take (mx + 1) qs). q \<noteq> []) \<longleftrightarrow> (\<exists>i<mx + 1. take (mx + 1) qs ! i \<noteq> [])"
    using l by (metis in_set_conv_nth)
  also have "\<dots> \<longleftrightarrow> (\<exists>i<mx + 1. qs ! i \<noteq> [])"
    by (metis nth_take)
  finally show ?thesis by (simp only: NUM_NICE_LEVELS_def)
qed

text \<open>
  C3. After every run of scheduler calls (and steps of \<^verbatim>\<open>MainLoop\<close>) from the freshly
  constructed scheduler in which no check fails, \<open>ready_cnt\<close> is the number of contexts
  linked in the worker queues \<open>0..MAX_NICE_LEVEL\<close>, the dispatcher slot left out, and
  \<^verbatim>\<open>has_ready_fibers()\<close> holds exactly when one of the worker queues is not empty.
\<close>

theorem ready_cnt_counts_linked_workers:
  assumes "run mx ops (init mx) = Inr s"
  shows "ready_cnt s = worker_total mx s \<and>
         has_ready_fibers s = (\<exists>q\<in>set (take (NUM_NICE_LEVELS mx) (rqueue_arr s)). q \<noteq> [])"
proof -
  have inv: "sched_inv mx s" by (rule reachable_inv [OF assms])
  then have len: "length (rqueue_arr s) = mx + 2" and cnt: "ready_cnt s = worker_total mx s"
    by (simp_all add: sched_inv_def queues_ok_def)
  have "has_ready_fibers s \<longleftrightarrow> worker_total mx s \<noteq> 0"
    using cnt by (simp add: has_ready_fibers_def)
  also have "\<dots> \<longleftrightarrow> (\<exists>i<mx + 1. rqueue_arr s ! i \<noteq> [])"
    by (simp only: worker_total_zero) blast
  finally show ?thesis using cnt worker_queue_nonempty_nth [OF len] by simp
qed

text \<open>
  The run: two workers and the dispatcher are awakened, the level-0 worker is picked, the
  other worker is moved from level 1 to level 3.
\<close>

theorem ready_cnt_counts_linked_workers_witness:
  "run 4 [Awakened fiber_a (nice 1), Awakened fiber_b (nice 0), Awakened the_dispatcher (nice 0),
          PickNext io_loop, PropertyChange fiber_a (nice 3)] (init 4)
     = Inr ((init 4)\<lparr>rqueue_arr := [[], [], [], [fiber_a], [], [the_dispatcher]], ready_cnt := 1\<rparr>)
   \<and> ready_cnt ((init 4)\<lparr>rqueue_arr := [[], [], [], [fiber_a], [], [the_dispatcher]], ready_cnt := 1\<rparr>)
     = worker_total 4 ((init 4)\<lparr>rqueue_arr := [[], [], [], [fiber_a], [], [the_dispatcher]], ready_cnt := 1\<rparr>)
   \<and> has_ready_fibers ((init 4)\<lparr>rqueue_arr := [[], [], [], [fiber_a], [], [the_dispatcher]], ready_cnt := 1\<rparr>)
     = (\<exists>q\<in>set (take (NUM_NICE_LEVELS 4)
          (rqueue_arr ((init 4)\<lparr>rqueue_arr := [[], [], [], [fiber_a], [], [the_dispatcher]], ready_cnt := 1\<rparr>))). q \<noteq> [])"
proof -
  have r: "run 4 [Awakened fiber_a (nice 1), Awakened fiber_b (nice 0), Awakened the_dispatcher (nice 0),
          PickNext io_loop, PropertyChange fiber_a (nice 3)] (init 4)
     = Inr ((init 4)\<lparr>rqueue_arr := [[], [], [], [fiber_a], [], [the_dispatcher]], ready_cnt := 1\<rparr>)"
    by code_simp
  show ?thesis using r ready_cnt_counts_linked_workers [OF r] by (rule conjI)
qed




section \<open>Strict priority across nice levels\<close>

text \<open>
  C1. In every reachable state, when \<open>i\<close> is the lowest worker level whose queue is not
  empty, \<^verbatim>\<open>pick_next\<close> returns the head of that queue and pops it (the picked context is
  not the active one, which \<^verbatim>\<open>pick_next\<close> checks). In particular, a worker awakened
  at level 0 while level 0 is empty is what the next \<^verbatim>\<open>pick_next\<close> returns, whatever is
  ready at the levels above and wherever the cursor stood.
\<close>

theorem strict_priority:
  assumes reach: "run mx ops (init mx) = Inr s"
  shows "(\<forall>i active. i < NUM_NICE_LEVELS mx \<and> rqueue_arr s ! i \<noteq> [] \<and>
            (\<forall>j<i. rqueue_arr s ! j = []) \<and> active \<noteq> hd (rqueue_arr s ! i) \<longrightarrow>
            (\<exists>s'. pick_next mx active s = Inr (Some (hd (rqueue_arr s ! i)), s') \<and>
                  rqueue_arr s' = (rqueue_arr s)[i := tl (rqueue_arr s ! i)]))
       \<and> (\<forall>c p active. \<not> is_dispatcher c \<and> \<not> ready_is_linked c s \<and> nice_level p = 0 \<and>
            rqueue_arr s ! 0 = [] \<and> active \<noteq> c \<longrightarrow>
            (\<exists>s1 s2. awakened mx c p s = Inr s1 \<and> pick_next mx active s1 = Inr (Some c, s2)))"
proof (intro conjI allI impI)
  fix i active
  assume h: "i < NUM_NICE_LEVELS mx \<and> rqueue_arr s ! i \<noteq> [] \<and>
            (\<forall>j<i. rqueue_arr s ! j = []) \<and> active \<noteq> hd (rqueue_arr s ! i)"
  have inv: "sched_inv mx s" by (rule reachable_inv [OF reach])
  from h have i: "i < mx + 1" by (simp add: NUM_NICE_LEVELS_def)
  show "\<exists>s'. pick_next mx active s = Inr (Some (hd (rqueue_arr s ! i)), s') \<and>
                  rqueue_arr s' = (rqueue_arr s)[i := tl (rqueue_arr s ! i)]"
    using pick_next_worker [OF inv i, of active] h by simp
next
  fix c and p :: IoFiberProperties and active
  assume h: "\<not> is_dispatcher c \<and> \<not> ready_is_linked c s \<and> nice_level p = 0 \<and>
            rqueue_arr s ! 0 = [] \<and> active \<noteq> c"
  have inv: "sched_inv mx s" by (rule reachable_inv [OF reach])
  then have len: "length (rqueue_arr s) = mx + 2" by (simp add: sched_inv_def queues_ok_def)
  define s1 where "s1 = s\<lparr>ready_cnt := ready_cnt s + 1,
                  last_nice_level := min (last_nice_level s) (nice_level p),
                  rqueue_arr := (rqueue_arr s)[nice_level p := rqueue_arr s ! nice_level p @ [c]]\<rparr>"
  have aw: "awakened mx c p s = Inr s1" using h by (simp add: awakened_Inr s1_def)
  have inv1: "sched_inv mx s1" by (rule sched_inv_awakened [OF inv aw])
  have q0: "rqueue_arr s1 ! 0 = [c]" using h len by (simp add: s1_def)
  have "pick_next mx active s1 =
     (if active = hd (rqueue_arr s1 ! 0) then Inl PickedActive
      else Inr (Some (hd (rqueue_arr s1 ! 0)),
        count_switch (s1\<lparr>last_nice_level := 0,
                        rqueue_arr := (rqueue_arr s1)[0 := tl (rqueue_arr s1 ! 0)],
                        ready_cnt := ready_cnt s1 - 1\<rparr>)))"
    by (rule pick_next_worker [OF inv1]) (simp_all add: q0)
  then show "\<exists>s1 s2. awakened mx c p s = Inr s1 \<and> pick_next mx active s1 = Inr (Some c, s2)"
    using aw h by (simp add: q0)
qed

text \<open>
  The run: \<open>fiber_a\<close> is ready at level 1 and would be picked; \<open>fiber_b\<close> is then
  awakened at level 0 and is picked instead.
\<close>

theorem strict_priority_witness:
  "run 4 [Awakened fiber_a (nice 1)] (init 4)
     = Inr ((init 4)\<lparr>rqueue_arr := [[], [fiber_a], [], [], [], []], ready_cnt := 1\<rparr>)
   \<and> (\<exists>s'. pick_next 4 io_loop ((init 4)\<lparr>rqueue_arr := [[], [fiber_a], [], [], [], []], ready_cnt := 1\<rparr>)
             = Inr (Some fiber_a, s')
           \<and> rqueue_arr s' = [[], [], [], [], [], []])
   \<and> (\<exists>s1 s2. awakened 4 fiber_b (nice 0)
                  ((init 4)\<lparr>rqueue_arr := [[], [fiber_a], [], [], [], []], ready_cnt := 1\<rparr>) = Inr s1
               \<and> pick_next 4 io_loop s1 = Inr (Some fiber_b, s2))"
proof -
  let ?s = "(init 4)\<lparr>rqueue_arr := [[], [fiber_a], [], [], [], []], ready_cnt := 1\<rparr>"
  have r: "run 4 [Awakened fiber_a (nice 1)] (init 4) = Inr ?s"
    by code_simp
  have a: "1 < NUM_NICE_LEVELS 4 \<and> rqueue_arr ?s ! 1 \<noteq> [] \<and>
            (\<forall>j<1. rqueue_arr ?s ! j = []) \<and> io_loop \<noteq> hd (rqueue_arr ?s ! 1)"
    by (simp add: NUM_NICE_LEVELS_def io_loop_def fiber_a_def)
  have b: "\<not> is_dispatcher fiber_b \<and> \<not> ready_is_linked fiber_b ?s \<and> nice_level (nice 0) = 0 \<and>
            rqueue_arr ?s ! 0 = [] \<and> io_loop \<noteq> fiber_b"
    by (simp add: is_dispatcher_def fiber_b_def fiber_a_def ready_is_linked_def nice_def io_loop_def)
  note sp = strict_priority [OF r]
  have p1: "\<exists>s'. pick_next 4 io_loop ?s = Inr (Some (hd (rqueue_arr ?s ! 1)), s') \<and>
                  rqueue_arr s' = (rqueue_arr ?s)[1 := tl (rqueue_arr ?s ! 1)]"
    using sp [THEN conjunct1, rule_format, OF a] .
  have p2: "\<exists>s1 s2. awakened 4 fiber_b (nice 0) ?s = Inr s1 \<and> pick_next 4 io_loop s1 = Inr (Some fiber_b, s2)"
    using sp [THEN conjunct2, rule_format, OF b] .
  from p1 have p1': "\<exists>s'. pick_next 4 io_loop ?s = Inr (Some fiber_a, s') \<and>
      rqueue_arr s' = [[], [], [], [], [], []]"
    by simp
  show ?thesis using r p1' p2 by (intro conjI)
qed

section \<open>Changing the nice level; the dispatcher slot\<close>

lemma linked_once_at_link:
  assumes len: "length (rqueue_arr s) = n" and i: "i < n"
    and nl: "\<not> ready_is_linked c s"
    and q: "rqueue_arr s' = (rqueue_arr s)[i := rqueue_arr s ! i @ [c]]"
  shows "linked_once_at c i s'"
proof -
  have z: "\<And>j. j < n \<Longrightarrow> count_list (rqueue_arr s ! j) c = 0"
    using nl ready_is_linked_nth [OF len, of c] by (simp add: count_list_0_iff)
  have len': "length (rqueue_arr s') = n" using len q by simp
  have "map (\<lambda>q. count_list q c) (rqueue_arr s') = (replicate n 0)[i := 1]"
  proof (rule nth_equalityI)
    show "length (map (\<lambda>q. count_list q c) (rqueue_arr s')) = length ((replicate n 0)[i := 1::nat])"
      using len' by simp
  next
    fix j assume "j < length (map (\<lambda>q. count_list q c) (rqueue_arr s'))"
    then have j: "j < n" using len' by simp
    show "map (\<lambda>q. count_list q c) (rqueue_arr s') ! j = (replicate n 0)[i := 1] ! j"
      using j i len z by (simp add: q nth_list_update)
  qed
  then show ?thesis using len' i by (simp add: linked_once_at_def)
qed

lemma SetNiceLevel_in_range:
  "nice_level (fst (SetNiceLevel mx p c props s)) < NUM_NICE_LEVELS mx \<or>
   fst (SetNiceLevel mx p c props s) = props"
  by (auto simp: SetNiceLevel_def Let_def NUM_NICE_LEVELS_def min_def)

text \<open>
  C6. In every reachable state, \<^verbatim>\<open>property_change\<close> on a linked worker with a new nice
  level below \<^verbatim>\<open>NUM_NICE_LEVELS\<close> leaves the worker linked exactly once, in the queue of
  the new level, and \<open>ready_cnt\<close> as it was; on a context that is not linked it returns
  the state unchanged.
\<close>

theorem property_change_relinks:
  assumes reach: "run mx ops (init mx) = Inr s"
  shows "(\<not> is_dispatcher c \<and> ready_is_linked c s \<and> nice_level p < NUM_NICE_LEVELS mx \<longrightarrow>
            (\<exists>s'. property_change mx c p s = Inr s' \<and> linked_once_at c (nice_level p) s' \<and>
                  ready_cnt s' = ready_cnt s))
       \<and> (\<not> ready_is_linked c s \<longrightarrow> property_change mx c p s = Inr s)"
proof (intro conjI impI)
  assume h: "\<not> is_dispatcher c \<and> ready_is_linked c s \<and> nice_level p < NUM_NICE_LEVELS mx"
  have inv: "sched_inv mx s" by (rule reachable_inv [OF reach])
  let ?s1 = "(ready_unlink c s)\<lparr>ready_cnt :=
           ready_cnt s - (if ready_is_linked c s \<and> \<not> is_dispatcher c then 1 else 0)\<rparr>"
  have inv1: "sched_inv mx ?s1" by (rule sched_inv_unlink [OF inv])
  then have len1: "length (rqueue_arr ?s1) = mx + 2" by (simp add: sched_inv_def queues_ok_def)
  have nl1: "\<not> ready_is_linked c ?s1"
    using ready_unlink_not_linked [of c s] by (simp add: ready_is_linked_def)
  have pos: "0 < ready_cnt s" using linked_worker_ready_cnt [OF inv, of c] h by blast
  define s' where "s' = ?s1\<lparr>ready_cnt := ready_cnt ?s1 + 1,
                  last_nice_level := min (last_nice_level ?s1) (nice_level p),
                  rqueue_arr := (rqueue_arr ?s1)[nice_level p := rqueue_arr ?s1 ! nice_level p @ [c]]\<rparr>"
  have aw: "awakened mx c p ?s1 = Inr s'"
    unfolding awakened_Inr using nl1 h by (simp add: s'_def NUM_NICE_LEVELS_def)
  have pc: "property_change mx c p s = Inr s'"
    using aw h by (simp only: property_change_linked [OF inv])
  have "linked_once_at c (nice_level p) s'"
    by (rule linked_once_at_link [OF len1 _ nl1]) (use h in \<open>simp_all add: s'_def NUM_NICE_LEVELS_def\<close>)
  moreover have "ready_cnt s' = ready_cnt s" using pos h by (simp add: s'_def)
  ultimately show "\<exists>s'. property_change mx c p s = Inr s' \<and> linked_once_at c (nice_level p) s' \<and>
                  ready_cnt s' = ready_cnt s"
    using pc by blast
next
  assume "\<not> ready_is_linked c s"
  then show "property_change mx c p s = Inr s" by (simp add: property_change_def)
qed

text \<open>
  The run: \<open>fiber_a\<close> and \<open>fiber_b\<close> at level 1; \<open>fiber_a\<close> is moved to level 3, and the
  running \<open>io_loop\<close> context, not linked, is left alone.
\<close>

theorem property_change_relinks_witness:
  "run 4 [Awakened fiber_a (nice 1), Awakened fiber_b (nice 1)] (init 4)
     = Inr ((init 4)\<lparr>rqueue_arr := [[], [fiber_a, fiber_b], [], [], [], []], ready_cnt := 2\<rparr>)
   \<and> (\<exists>s'. property_change 4 fiber_a (nice 3)
              ((init 4)\<lparr>rqueue_arr := [[], [fiber_a, fiber_b], [], [], [], []], ready_cnt := 2\<rparr>) = Inr s'
           \<and> linked_once_at fiber_a 3 s' \<and> ready_cnt s' = 2)
   \<and> property_change 4 io_loop (nice 3)
        ((init 4)\<lparr>rqueue_arr := [[], [fiber_a, fiber_b], [], [], [], []], ready_cnt := 2\<rparr>)
      = Inr ((init 4)\<lparr>rqueue_arr := [[], [fiber_a, fiber_b], [], [], [], []], ready_cnt := 2\<rparr>)"
proof -
  let ?s = "(init 4)\<lparr>rqueue_arr := [[], [fiber_a, fiber_b], [], [], [], []], ready_cnt := 2\<rparr>"
  have r: "run 4 [Awakened fiber_a (nice 1), Awakened fiber_b (nice 1)] (init 4) = Inr ?s"
    by code_simp
  have a: "\<not> is_dispatcher fiber_a \<and> ready_is_linked fiber_a ?s \<and> nice_level (nice 3) < NUM_NICE_LEVELS 4"
    by (simp add: is_dispatcher_def fiber_a_def ready_is_linked_def nice_def NUM_NICE_LEVELS_def)
  have b: "\<not> ready_is_linked io_loop ?s"
    by (simp add: ready_is_linked_def io_loop_def fiber_a_def fiber_b_def)
  have p1: "\<exists>s'. property_change 4 fiber_a (nice 3) ?s = Inr s' \<and>
      linked_once_at fiber_a (nice_level (nice 3)) s' \<and> ready_cnt s' = ready_cnt ?s"
    using property_change_relinks [OF r, of fiber_a "nice 3", THEN conjunct1, rule_format, OF a] .
  have p2: "property_change 4 io_loop (nice 3) ?s = Inr ?s"
    using property_change_relinks [OF r, of io_loop "nice 3", THEN conjunct2, rule_format, OF b] .
  from p1 have p1': "\<exists>s'. property_change 4 fiber_a (nice 3) ?s = Inr s' \<and>
      linked_once_at fiber_a 3 s' \<and> ready_cnt s' = 2"
    by (simp add: nice_def)
  show ?thesis using r p1' p2 by (intro conjI)
qed

text \<open>
  C10, as stated, fails for \<^verbatim>\<open>property_change\<close>: on the dispatcher context that is not
  linked (here in the freshly constructed scheduler) the call returns at its first test,
  and the dispatcher is not linked at the dispatcher slot afterwards.
\<close>

theorem property_change_unlinked_dispatcher:
  "property_change 4 the_dispatcher (nice 0) (init 4) = Inr (init 4)
   \<and> \<not> ready_is_linked the_dispatcher (init 4)
   \<and> \<not> linked_once_at the_dispatcher (4 + 1) (init 4)"
  by code_simp

text \<open>
  C10, amended. In every reachable state and for every properties value, \<^verbatim>\<open>awakened\<close>
  on the dispatcher context (not linked, as \<^verbatim>\<open>awakened\<close> requires) and
  \<^verbatim>\<open>property_change\<close> on the linked dispatcher context leave it linked exactly once, at
  slot \<^verbatim>\<open>MAX_NICE_LEVEL + 1\<close>, with \<open>ready_cnt\<close>, \<open>last_nice_level\<close> and
  \<^verbatim>\<open>has_ready_fibers()\<close> unchanged; \<^verbatim>\<open>property_change\<close> on the dispatcher context
  that is not linked changes nothing.
\<close>

theorem dispatcher_ops_frame:
  assumes reach: "run mx ops (init mx) = Inr s" and d: "is_dispatcher c"
  shows "(\<not> ready_is_linked c s \<longrightarrow>
            (\<exists>s'. awakened mx c p s = Inr s' \<and> linked_once_at c (mx + 1) s' \<and>
                  ready_cnt s' = ready_cnt s \<and> last_nice_level s' = last_nice_level s \<and>
                  has_ready_fibers s' = has_ready_fibers s))
       \<and> (ready_is_linked c s \<longrightarrow>
            (\<exists>s'. property_change mx c p s = Inr s' \<and> linked_once_at c (mx + 1) s' \<and>
                  ready_cnt s' = ready_cnt s \<and> last_nice_level s' = last_nice_level s \<and>
                  has_ready_fibers s' = has_ready_fibers s))
       \<and> (\<not> ready_is_linked c s \<longrightarrow> property_change mx c p s = Inr s)"
proof (intro conjI impI)
  assume nl: "\<not> ready_is_linked c s"
  have inv: "sched_inv mx s" by (rule reachable_inv [OF reach])
  then have len: "length (rqueue_arr s) = mx + 2" by (simp add: sched_inv_def queues_ok_def)
  define s' where "s' = s\<lparr>rqueue_arr := (rqueue_arr s)[mx + 1 := rqueue_arr s ! (mx + 1) @ [c]]\<rparr>"
  have aw: "awakened mx c p s = Inr s'" unfolding awakened_Inr using nl d by (simp add: s'_def)
  have "linked_once_at c (mx + 1) s'"
    by (rule linked_once_at_link [OF len _ nl]) (simp_all add: s'_def)
  then show "\<exists>s'. awakened mx c p s = Inr s' \<and> linked_once_at c (mx + 1) s' \<and>
                  ready_cnt s' = ready_cnt s \<and> last_nice_level s' = last_nice_level s \<and>
                  has_ready_fibers s' = has_ready_fibers s"
    using aw by (intro exI [of _ s']) (simp add: s'_def has_ready_fibers_def)
next
  assume l: "ready_is_linked c s"
  have inv: "sched_inv mx s" by (rule reachable_inv [OF reach])
  let ?s1 = "(ready_unlink c s)\<lparr>ready_cnt :=
           ready_cnt s - (if ready_is_linked c s \<and> \<not> is_dispatcher c then 1 else 0)\<rparr>"
  have inv1: "sched_inv mx ?s1" by (rule sched_inv_unlink [OF inv])
  then have len1: "length (rqueue_arr ?s1) = mx + 2" by (simp add: sched_inv_def queues_ok_def)
  have nl1: "\<not> ready_is_linked c ?s1"
    using ready_unlink_not_linked [of c s] by (simp add: ready_is_linked_def)
  define s' where "s' = ?s1\<lparr>rqueue_arr := (rqueue_arr ?s1)[mx + 1 := rqueue_arr ?s1 ! (mx + 1) @ [c]]\<rparr>"
  have aw: "awakened mx c p ?s1 = Inr s'" unfolding awakened_Inr using nl1 d by (simp add: s'_def)
  have pc: "property_change mx c p s = Inr s'"
    using aw l by (simp only: property_change_linked [OF inv])
  have "linked_once_at c (mx + 1) s'"
    by (rule linked_once_at_link [OF len1 _ nl1]) (simp_all add: s'_def)
  then show "\<exists>s'. property_change mx c p s = Inr s' \<and> linked_once_at c (mx + 1) s' \<and>
                  ready_cnt s' = ready_cnt s \<and> last_nice_level s' = last_nice_level s \<and>
                  has_ready_fibers s' = has_ready_fibers s"
    using pc d by (intro exI [of _ s']) (simp add: s'_def has_ready_fibers_def ready_unlink_def)
next
  assume "\<not> ready_is_linked c s"
  then show "property_change mx c p s = Inr s" by (simp add: property_change_def)
qed

text \<open>
  The run: one worker at level 2; the dispatcher is awakened with nice level 2 in its
  properties and lands in slot 5.
\<close>

theorem dispatcher_ops_frame_witness:
  "run 4 [Awakened fiber_a (nice 2)] (init 4)
     = Inr ((init 4)\<lparr>rqueue_arr := [[], [], [fiber_a], [], [], []], ready_cnt := 1\<rparr>)
   \<and> is_dispatcher the_dispatcher
   \<and> (\<exists>s'. awakened 4 the_dispatcher (nice 2)
               ((init 4)\<lparr>rqueue_arr := [[], [], [fiber_a], [], [], []], ready_cnt := 1\<rparr>) = Inr s'
           \<and> linked_once_at the_dispatcher 5 s' \<and> ready_cnt s' = 1 \<and> last_nice_level s' = 0
           \<and> has_ready_fibers s')
   \<and> property_change 4 the_dispatcher (nice 2)
        ((init 4)\<lparr>rqueue_arr := [[], [], [fiber_a], [], [], []], ready_cnt := 1\<rparr>)
      = Inr ((init 4)\<lparr>rqueue_arr := [[], [], [fiber_a], [], [], []], ready_cnt := 1\<rparr>)"
proof -
  let ?s = "(init 4)\<lparr>rqueue_arr := [[], [], [fiber_a], [], [], []], ready_cnt := 1\<rparr>"
  have r: "run 4 [Awakened fiber_a (nice 2)] (init 4) = Inr ?s"
    by code_simp
  have d: "is_dispatcher the_dispatcher" by (simp add: is_dispatcher_def the_dispatcher_def)
  have nl: "\<not> ready_is_linked the_dispatcher ?s"
    by (simp add: ready_is_linked_def the_dispatcher_def fiber_a_def)
  note fr = dispatcher_ops_frame [OF r d, of "nice 2"]
  have p1: "\<exists>s'. awakened 4 the_dispatcher (nice 2) ?s = Inr s' \<and> linked_once_at the_dispatcher (4 + 1) s' \<and>
                  ready_cnt s' = ready_cnt ?s \<and> last_nice_level s' = last_nice_level ?s \<and>
                  has_ready_fibers s' = has_ready_fibers ?s"
    using fr [THEN conjunct1, rule_format, OF nl] .
  have p2: "property_change 4 the_dispatcher (nice 2) ?s = Inr ?s"
    using fr [THEN conjunct2, THEN conjunct2, rule_format, OF nl] .
  from p1 have p1': "\<exists>s'. awakened 4 the_dispatcher (nice 2) ?s = Inr s'
           \<and> linked_once_at the_dispatcher 5 s' \<and> ready_cnt s' = 1 \<and> last_nice_level s' = 0
           \<and> has_ready_fibers s'"
    by (simp add: init_def has_ready_fibers_def)
  show ?thesis using r d p1' p2 by (intro conjI)
qed

section \<open>The loop mask and the deadlock check\<close>

lemma pick_dispatch_frame:
  assumes "pick_dispatch mx s = Inr (r, s')"
  shows "mask s' = mask s \<and> main_loc s' = main_loc s \<and> suspend_timer s' = suspend_timer s"
  using assms by (auto simp: pick_dispatch_def Let_def split: if_splits)

lemma pick_next_frame:
  assumes "pick_next mx active s = Inr (r, s')"
  shows "mask s' = mask s \<and> main_loc s' = main_loc s \<and> suspend_timer s' = suspend_timer s"
  using assms
proof (induction mx active s rule: pick_next.induct)
  case (1 mx active s)
  show ?case
  proof (cases "last_nice_level s < NUM_NICE_LEVELS mx")
    case False
    then have "pick_dispatch mx s = Inr (r, s')"
      using "1.prems" by (subst (asm) pick_next.simps) simp
    then show ?thesis by (rule pick_dispatch_frame)
  next
    case True
    show ?thesis
    proof (cases "rqueue_arr s ! last_nice_level s = []")
      case e: True
      have "pick_next mx active (s\<lparr>last_nice_level := last_nice_level s + 1\<rparr>) = Inr (r, s')"
        using "1.prems" True e by (subst (asm) pick_next.simps) simp
      from "1.IH" [OF True refl e this] show ?thesis by simp
    next
      case ne: False
      show ?thesis
        using "1.prems" True ne
        by (subst (asm) pick_next.simps) (auto simp: Let_def split: if_splits)
    qed
  qed
qed

lemma awakened_frame:
  assumes "awakened mx c p s = Inr s'"
  shows "mask s' = mask s \<and> main_loc s' = main_loc s \<and> suspend_timer s' = suspend_timer s"
  using assms by (auto simp: awakened_Inr split: if_splits)

lemma property_change_frame:
  assumes "property_change mx c p s = Inr s'"
  shows "mask s' = mask s \<and> main_loc s' = main_loc s \<and> suspend_timer s' = suspend_timer s"
proof (cases "ready_is_linked c s")
  case False
  then show ?thesis using assms by (simp add: property_change_def)
next
  case True
  then obtain s1 where a: "awakened mx c p s1 = Inr s'"
    and f: "mask s1 = mask s \<and> main_loc s1 = main_loc s \<and> suspend_timer s1 = suspend_timer s"
    using assms by (auto simp: property_change_def Let_def ready_unlink_def split: if_splits)
  from awakened_frame [OF a] f show ?thesis by simp
qed

lemma loop_inv_cong:
  "mask s' = mask s \<and> main_loc s' = main_loc s \<and> suspend_timer s' = suspend_timer s \<Longrightarrow>
   loop_inv s \<Longrightarrow> loop_inv s'"
  by (simp add: loop_inv_def)

lemma loop_inv_suspend_until:
  "loop_inv s \<Longrightarrow> suspend_until a t s = Inr s' \<Longrightarrow> loop_inv s'"
  by (auto simp: suspend_until_def loop_inv_def Let_def split: if_splits)

lemma loop_inv_notify: "loop_inv s \<Longrightarrow> loop_inv (notify now s)"
  by (auto simp: notify_def loop_inv_def split: option.splits)

lemma loop_inv_MainLoop_step: "loop_inv s \<Longrightarrow> loop_inv (MainLoop_step st n s)"
  by (cases "main_loc s")
     (simp_all add: MainLoop_step_def loop_inv_def WaitTillFibersSuspend_enter_def
        WaitTillFibersSuspend_leave_def LOOP_RUN_ONE_def LOOP_SUSPEND_def)

lemma loop_inv_exec:
  assumes "loop_inv s" "exec mx x s = Inr (r, s')"
  shows "loop_inv s'"
proof (cases x)
  case (Awakened c p)
  then obtain "awakened mx c p s = Inr s'" using assms(2) by (cases "awakened mx c p s") auto
  from loop_inv_cong [OF awakened_frame [OF this] assms(1)] show ?thesis .
next
  case (PickNext a)
  then have "pick_next mx a s = Inr (r, s')" using assms(2) by simp
  from loop_inv_cong [OF pick_next_frame [OF this] assms(1)] show ?thesis .
next
  case (PropertyChange c p)
  then obtain "property_change mx c p s = Inr s'"
    using assms(2) by (cases "property_change mx c p s") auto
  from loop_inv_cong [OF property_change_frame [OF this] assms(1)] show ?thesis .
next
  case (SuspendUntil a t)
  then obtain "suspend_until a t s = Inr s'"
    using assms(2) by (cases "suspend_until a t s") auto
  from loop_inv_suspend_until [OF assms(1) this] show ?thesis .
next
  case (Notify now)
  then show ?thesis using assms loop_inv_notify [of s now] by auto
next
  case (MainStep st n)
  then show ?thesis using assms loop_inv_MainLoop_step [of s st n] by auto
qed

lemma loop_inv_run:
  "loop_inv s \<Longrightarrow> run mx xs s = Inr s' \<Longrightarrow> loop_inv s'"
proof (induction xs arbitrary: s)
  case Nil
  then show ?case by simp
next
  case (Cons x xs)
  from Cons.prems(2) obtain r s1 where e: "exec mx x s = Inr (r, s1)" and r: "run mx xs s1 = Inr s'"
    by (auto split: sum.splits)
  from loop_inv_exec [OF Cons.prems(1) e] have "loop_inv s1" .
  then show ?case using r by (rule Cons.IH)
qed

lemma loop_inv_init: "loop_inv (init mx)"
  by (simp add: loop_inv_def init_def)

text \<open>
  C8. In every reachable state: \<^verbatim>\<open>suspend_until\<close> stops at its \<^verbatim>\<open>CHECK_EQ\<close> ("Deadlock
  detected") exactly when it is called by the dispatcher context with \<^verbatim>\<open>LOOP_RUN_ONE\<close>
  set; a call by any other context is stopped before, by the check that the active context
  is the dispatcher; and \<^verbatim>\<open>LOOP_RUN_ONE\<close> and \<^verbatim>\<open>LOOP_SUSPEND\<close> are never set together.
\<close>

theorem deadlock_guard:
  assumes reach: "run mx ops (init mx) = Inr s"
  shows "(suspend_until active t s = Inl DeadlockDetected \<longleftrightarrow>
            is_dispatcher active \<and> mask s AND LOOP_RUN_ONE \<noteq> 0)
       \<and> (\<not> is_dispatcher active \<longrightarrow> suspend_until active t s = Inl NotDispatcher)
       \<and> \<not> (mask s AND LOOP_RUN_ONE \<noteq> 0 \<and> mask s AND LOOP_SUSPEND \<noteq> 0)"
proof -
  have li: "loop_inv s" by (rule loop_inv_run [OF loop_inv_init reach])
  have run_one: "mask s AND LOOP_RUN_ONE \<noteq> 0 \<longleftrightarrow> main_loc s = InRunOne"
    using li by (cases "main_loc s") (simp_all add: loop_inv_def LOOP_RUN_ONE_def LOOP_SUSPEND_def)
  have susp: "mask s AND LOOP_SUSPEND \<noteq> 0 \<longleftrightarrow> main_loc s = InWait"
    using li by (cases "main_loc s") (simp_all add: loop_inv_def LOOP_RUN_ONE_def LOOP_SUSPEND_def)
  have timer: "main_loc s = InRunOne \<Longrightarrow> suspend_timer s \<noteq> None"
    using li by (auto simp: loop_inv_def)
  have "suspend_until active t s = Inl DeadlockDetected \<longleftrightarrow>
            is_dispatcher active \<and> mask s AND LOOP_RUN_ONE \<noteq> 0"
    using timer run_one by (auto simp: suspend_until_def Let_def split: if_splits)
  moreover have "\<not> is_dispatcher active \<longrightarrow> suspend_until active t s = Inl NotDispatcher"
    by (simp add: suspend_until_def)
  moreover have "\<not> (mask s AND LOOP_RUN_ONE \<noteq> 0 \<and> mask s AND LOOP_SUSPEND \<noteq> 0)"
    using run_one susp by auto
  ultimately show ?thesis by blast
qed

text \<open>
  The run: with no fiber ready \<^verbatim>\<open>MainLoop\<close> sets \<^verbatim>\<open>LOOP_RUN_ONE\<close> and enters
  \<^verbatim>\<open>run_one\<close>; \<^verbatim>\<open>suspend_until\<close> called by the dispatcher then stops at the deadlock
  check, and called by another context at the dispatcher check.
\<close>

theorem deadlock_guard_witness:
  "run 4 [MainStep False 0] (init 4) = Inr ((init 4)\<lparr>mask := 1, main_loc := InRunOne\<rparr>)
   \<and> suspend_until the_dispatcher 1000 ((init 4)\<lparr>mask := 1, main_loc := InRunOne\<rparr>)
       = Inl DeadlockDetected
   \<and> suspend_until io_loop 1000 ((init 4)\<lparr>mask := 1, main_loc := InRunOne\<rparr>) = Inl NotDispatcher
   \<and> \<not> (mask ((init 4)\<lparr>mask := 1, main_loc := InRunOne\<rparr>) AND LOOP_RUN_ONE \<noteq> 0
        \<and> mask ((init 4)\<lparr>mask := 1, main_loc := InRunOne\<rparr>) AND LOOP_SUSPEND \<noteq> 0)"
proof -
  let ?s = "(init 4)\<lparr>mask := 1, main_loc := InRunOne\<rparr>"
  have r: "run 4 [MainStep False 0] (init 4) = Inr ?s"
    by code_simp
  have d: "is_dispatcher the_dispatcher \<and> mask ?s AND LOOP_RUN_ONE \<noteq> 0"
    by (simp add: is_dispatcher_def the_dispatcher_def LOOP_RUN_ONE_def)
  have nd: "\<not> is_dispatcher io_loop" by (simp add: is_dispatcher_def io_loop_def)
  have p1: "suspend_until the_dispatcher 1000 ?s = Inl DeadlockDetected"
    using deadlock_guard [OF r, of the_dispatcher 1000, THEN conjunct1] d by blast
  have p2: "suspend_until io_loop 1000 ?s = Inl NotDispatcher"
    using deadlock_guard [OF r, of io_loop 1000, THEN conjunct2, THEN conjunct1, rule_format, OF nd] .
  have p3: "\<not> (mask ?s AND LOOP_RUN_ONE \<noteq> 0 \<and> mask ?s AND LOOP_SUSPEND \<noteq> 0)"
    using deadlock_guard [OF r, of the_dispatcher 1000, THEN conjunct2, THEN conjunct2] .
  show ?thesis using r p1 p2 p3 by (intro conjI)
qed

section \<open>Waking MainLoop after a bounded number of switches\<close>

lemma run_picks_run: "run_picks mx xs s = Inr (rs, s') \<Longrightarrow> run mx xs s = Inr s'"
  by (induction xs arbitrary: s rs) (auto split: sum.splits prod.splits)

lemma count_switch_effect:
  assumes "mask s AND LOOP_SUSPEND \<noteq> 0"
  shows "switch_cnt (count_switch s) = switch_cnt s + 1 \<and>
         cnd_notifies (count_switch s) = cnd_notifies s + (if switch_cnt s + 1 > 4 then 1 else 0) \<and>
         main_resumes (count_switch s) = main_resumes s + (if switch_cnt s + 1 > 4 then 1 else 0)"
  using assms by (simp add: count_switch_def Let_def MAIN_SWITCH_LIMIT_def)

lemma pick_next_switch:
  assumes inv: "sched_inv mx s" and susp: "mask s AND LOOP_SUSPEND \<noteq> 0"
    and pk: "pick_next mx active s = Inr (r, s')"
  shows "if is_worker_pick r
         then switch_cnt s' = switch_cnt s + 1 \<and>
              cnd_notifies s' = cnd_notifies s + (if switch_cnt s + 1 > 4 then 1 else 0) \<and>
              main_resumes s' = main_resumes s + (if switch_cnt s + 1 > 4 then 1 else 0)
         else switch_cnt s' = switch_cnt s \<and> cnd_notifies s' = cnd_notifies s \<and>
              main_resumes s' = main_resumes s"
proof (cases "\<exists>i<mx + 1. rqueue_arr s ! i \<noteq> []")
  case True
  from lowest_nonempty [OF True] obtain i where i: "i < mx + 1"
    and ne: "rqueue_arr s ! i \<noteq> []" and lo: "\<forall>j<i. rqueue_arr s ! j = []" by blast
  let ?s1 = "s\<lparr>last_nice_level := i,
                rqueue_arr := (rqueue_arr s)[i := tl (rqueue_arr s ! i)],
                ready_cnt := ready_cnt s - 1\<rparr>"
  have r: "r = Some (hd (rqueue_arr s ! i))" and s': "s' = count_switch ?s1"
    using pk pick_next_worker [OF inv i ne lo, of active] by (simp_all split: if_splits)
  have "queues_ok mx (rqueue_arr s)" using inv by (simp add: sched_inv_def)
  moreover have "hd (rqueue_arr s ! i) \<in> set (rqueue_arr s ! i)" using ne by simp
  ultimately have "\<not> is_dispatcher (hd (rqueue_arr s ! i))"
    using i unfolding queues_ok_def
    by (metis add_less_mono1 less_add_one less_irrefl_nat less_trans one_add_one add.assoc)
  then have w: "is_worker_pick r" by (simp add: r)
  have "mask ?s1 AND LOOP_SUSPEND \<noteq> 0" using susp by simp
  from count_switch_effect [OF this] show ?thesis using w by (simp add: s')
next
  case False
  then have em: "\<forall>i<mx + 1. rqueue_arr s ! i = []" by simp
  have ok: "queues_ok mx (rqueue_arr s)" using inv by (simp add: sched_inv_def)
  show ?thesis
  proof (cases "rqueue_arr s ! (mx + 1) \<noteq> []")
    case True
    then have r: "r = Some (hd (rqueue_arr s ! (mx + 1)))"
      and s': "s' = s\<lparr>last_nice_level := mx + 1,
               rqueue_arr := (rqueue_arr s)[mx + 1 := butlast (rqueue_arr s ! (mx + 1))]\<rparr>"
      using pk pick_next_idle [OF inv em, of active] by simp_all
    have "hd (rqueue_arr s ! (mx + 1)) \<in> set (rqueue_arr s ! (mx + 1))" using True by simp
    then have "is_dispatcher (hd (rqueue_arr s ! (mx + 1)))"
      using ok unfolding queues_ok_def by (metis less_add_one add_less_mono1 one_add_one add.assoc)
    then show ?thesis by (simp add: r s')
  next
    case False
    then have "r = None" and "s' = s\<lparr>last_nice_level := mx + 1\<rparr>"
      using pk pick_next_idle [OF inv em, of active] by simp_all
    then show ?thesis by simp
  qed
qed

lemma awakened_switch:
  assumes "awakened mx c p s = Inr s'"
  shows "switch_cnt s' = switch_cnt s \<and> cnd_notifies s' = cnd_notifies s \<and>
         main_resumes s' = main_resumes s"
  using assms by (auto simp: awakened_Inr split: if_splits)

lemma property_change_switch:
  assumes "property_change mx c p s = Inr s'"
  shows "switch_cnt s' = switch_cnt s \<and> cnd_notifies s' = cnd_notifies s \<and>
         main_resumes s' = main_resumes s"
proof (cases "ready_is_linked c s")
  case False
  then show ?thesis using assms by (simp add: property_change_def)
next
  case True
  then obtain s1 where a: "awakened mx c p s1 = Inr s'"
    and f: "switch_cnt s1 = switch_cnt s \<and> cnd_notifies s1 = cnd_notifies s \<and>
         main_resumes s1 = main_resumes s"
    using assms by (auto simp: property_change_def Let_def ready_unlink_def split: if_splits)
  from awakened_switch [OF a] f show ?thesis by simp
qed

lemma word64_of_nat_gt4:
  assumes "k < 2 ^ 64"
  shows "(of_nat k :: 64 word) > 4 \<longleftrightarrow> 4 < k"
proof -
  have "(4 :: 64 word) = of_nat 4" by simp
  then have "(of_nat k :: 64 word) > 4 \<longleftrightarrow> (of_nat 4 :: 64 word) < of_nat k" by simp
  also have "\<dots> \<longleftrightarrow> take_bit 64 (4::nat) < take_bit 64 k"
    by (simp only: of_nat_word_less_iff) simp
  also have "\<dots> \<longleftrightarrow> 4 < k"
    using assms by (simp add: take_bit_nat_eq_self)
  finally show ?thesis .
qed

lemma run_picks_switch:
  assumes "sched_inv mx s" "mask s AND LOOP_SUSPEND \<noteq> 0" "switch_cnt s = of_nat k"
    and "list_all is_queue_op xs" "run_picks mx xs s = Inr (rs, s')"
    and "k + dequeues rs < 2 ^ 64"
  shows "cnd_notifies s' + (k - 4) = cnd_notifies s + (k + dequeues rs - 4) \<and>
         main_resumes s' + of_nat (k - 4) = main_resumes s + of_nat (k + dequeues rs - 4) \<and>
         switch_cnt s' = of_nat (k + dequeues rs)"
  using assms
proof (induction xs arbitrary: s k rs)
  case Nil
  then show ?case by (simp add: dequeues_def)
next
  case (Cons x xs)
  from Cons.prems(5) obtain r s1 rs1 where e: "exec mx x s = Inr (r, s1)"
    and rp: "run_picks mx xs s1 = Inr (rs1, s')"
    and rs: "rs = (case x of PickNext a \<Rightarrow> [r] | _ \<Rightarrow> []) @ rs1"
    by (auto split: sum.splits prod.splits)
  have inv1: "sched_inv mx s1" by (rule sched_inv_exec [OF Cons.prems(1) e])
  have qs: "list_all is_queue_op xs" and qx: "is_queue_op x" using Cons.prems(4) by simp_all
  show ?case
  proof (cases "(\<exists>a. x = PickNext a) \<and> is_worker_pick r")
    case True
    then obtain a where x: "x = PickNext a" and w: "is_worker_pick r" by blast
    have pk: "pick_next mx a s = Inr (r, s1)" using e x by simp
    have m1: "mask s1 = mask s" using pick_next_frame [OF pk] by simp
    have d: "dequeues rs = Suc (dequeues rs1)" using rs x w by (simp add: dequeues_def)
    have k1: "Suc k < 2 ^ 64" using Cons.prems(6) d by simp
    from pick_next_switch [OF Cons.prems(1,2) pk] w Cons.prems(3)
    have sc: "switch_cnt s1 = of_nat (Suc k)"
      and cn: "cnd_notifies s1 = cnd_notifies s + (if (of_nat (Suc k) :: 64 word) > 4 then 1 else 0)"
      and mr: "main_resumes s1 = main_resumes s + (if (of_nat (Suc k) :: 64 word) > 4 then 1 else 0)"
      by (simp_all add: add.commute)
    have ih: "cnd_notifies s' + (Suc k - 4) = cnd_notifies s1 + (Suc k + dequeues rs1 - 4) \<and>
         main_resumes s' + of_nat (Suc k - 4) = main_resumes s1 + of_nat (Suc k + dequeues rs1 - 4) \<and>
         switch_cnt s' = of_nat (Suc k + dequeues rs1)"
      using Cons.IH [OF inv1 _ sc qs rp] Cons.prems(2,6) m1 d by simp
    from ih have ih1: "cnd_notifies s' + (Suc k - 4) = cnd_notifies s1 + (Suc k + dequeues rs1 - 4)"
      and ih2: "main_resumes s' + of_nat (Suc k - 4) = main_resumes s1 + of_nat (Suc k + dequeues rs1 - 4)"
      and ih3: "switch_cnt s' = of_nat (Suc k + dequeues rs1)"
      by simp_all
    have e2: "Suc k + dequeues rs1 = k + dequeues rs" using d by simp
    have c3: "switch_cnt s' = of_nat (k + dequeues rs)" using ih3 by (simp only: e2)
    show ?thesis
    proof (cases "4 < Suc k")
      case True
      then have g: "(of_nat (Suc k) :: 64 word) > 4" using word64_of_nat_gt4 [OF k1] by simp
      have cn': "cnd_notifies s1 = cnd_notifies s + 1" using cn g by simp
      have mr': "main_resumes s1 = main_resumes s + 1" using mr g by simp
      have e1: "Suc k - 4 = Suc (k - 4)" using True by simp
      have c1: "cnd_notifies s' + (k - 4) = cnd_notifies s + (k + dequeues rs - 4)"
        using ih1 cn' e1 e2 by arith
      have "main_resumes s' + of_nat (k - 4) + 1 = main_resumes s + of_nat (k + dequeues rs - 4) + 1"
        using ih2 unfolding mr' e1 e2 by (simp add: add.assoc add.commute add.left_commute)
      then have c2: "main_resumes s' + of_nat (k - 4) = main_resumes s + of_nat (k + dequeues rs - 4)"
        by (simp only: add_right_cancel)
      show ?thesis using c1 c2 c3 by (intro conjI)
    next
      case False
      then have g: "\<not> (of_nat (Suc k) :: 64 word) > 4" using word64_of_nat_gt4 [OF k1] by simp
      have cn': "cnd_notifies s1 = cnd_notifies s" using cn g by simp
      have mr': "main_resumes s1 = main_resumes s" using mr g by simp
      have e1: "Suc k - 4 = 0" "k - 4 = 0" using False by simp_all
      have c1: "cnd_notifies s' + (k - 4) = cnd_notifies s + (k + dequeues rs - 4)"
        using ih1 cn' e1 e2 by arith
      have c2: "main_resumes s' + of_nat (k - 4) = main_resumes s + of_nat (k + dequeues rs - 4)"
        using ih2 unfolding mr' e1 e2 by simp
      show ?thesis using c1 c2 c3 by (intro conjI)
    qed
  next
    case False
    have same: "mask s1 = mask s \<and> switch_cnt s1 = switch_cnt s \<and>
        cnd_notifies s1 = cnd_notifies s \<and> main_resumes s1 = main_resumes s"
    proof (cases x)
      case (Awakened c p)
      then obtain "awakened mx c p s = Inr s1" using e by (cases "awakened mx c p s") auto
      from awakened_switch [OF this] awakened_frame [OF this] show ?thesis by simp
    next
      case (PickNext a)
      then have pk: "pick_next mx a s = Inr (r, s1)" using e by simp
      have "\<not> is_worker_pick r" using False PickNext by simp
      with pick_next_switch [OF Cons.prems(1,2) pk] pick_next_frame [OF pk] show ?thesis by simp
    next
      case (PropertyChange c p)
      then obtain "property_change mx c p s = Inr s1"
        using e by (cases "property_change mx c p s") auto
      from property_change_switch [OF this] property_change_frame [OF this] show ?thesis by simp
    qed (use qx in simp_all)
    have "dequeues rs = dequeues rs1"
      using rs False by (cases x) (auto simp: dequeues_def)
    then show ?thesis
      using Cons.IH [OF inv1 _ _ qs rp, of k] Cons.prems(2,3,6) same by simp
  qed
qed

text \<open>
  C7. Start in a reachable state with \<^verbatim>\<open>LOOP_SUSPEND\<close> set and \<open>switch_cnt = 0\<close>
  (\<^verbatim>\<open>MainLoop\<close> parked in \<^verbatim>\<open>WaitTillFibersSuspend\<close>) and run any sequence of
  \<^verbatim>\<open>awakened\<close>, \<^verbatim>\<open>pick_next\<close> and \<^verbatim>\<open>property_change\<close> calls. If \<open>d\<close> of the
  \<^verbatim>\<open>pick_next\<close> calls returned a worker, the condition variable has been signalled
  \<open>d - MAIN_SWITCH_LIMIT\<close> times (and \<open>main_resumes\<close> raised as often): not at all
  during the first \<^verbatim>\<open>MAIN_SWITCH_LIMIT\<close> dequeues, and for the first time on dequeue
  \<^verbatim>\<open>MAIN_SWITCH_LIMIT + 1\<close>.
\<close>

theorem main_switch_bound:
  assumes reach: "run mx ops0 (init mx) = Inr s"
    and susp: "mask s AND LOOP_SUSPEND \<noteq> 0"
    and reset: "switch_cnt s = 0"
    and qops: "list_all is_queue_op ops"
    and picks: "run_picks mx ops s = Inr (rs, s')"
    and bound: "dequeues rs < 2 ^ 64"
  shows "cnd_notifies s' = cnd_notifies s + (dequeues rs - MAIN_SWITCH_LIMIT) \<and>
         main_resumes s' = main_resumes s + of_nat (dequeues rs - MAIN_SWITCH_LIMIT)"
proof -
  have inv: "sched_inv mx s" by (rule reachable_inv [OF reach])
  have "switch_cnt s = of_nat 0" using reset by simp
  from run_picks_switch [OF inv susp this qops picks] bound
  show ?thesis by (simp add: MAIN_SWITCH_LIMIT_def)
qed

text \<open>
  The run: six workers at level 1, \<^verbatim>\<open>MainLoop\<close> polls and parks. Four dequeues leave the
  condition variable alone; the fifth signals it.
\<close>

theorem main_switch_bound_witness:
  "run 4 [Awakened (worker 1) (nice 1), Awakened (worker 2) (nice 1), Awakened (worker 3) (nice 1),
          Awakened (worker 4) (nice 1), Awakened (worker 5) (nice 1), Awakened (worker 6) (nice 1),
          MainStep False 0, MainStep False 0] (init 4)
     = Inr ((init 4)\<lparr>rqueue_arr := [[], [worker 1, worker 2, worker 3, worker 4, worker 5, worker 6],
                                      [], [], [], []],
                      ready_cnt := 6, mask := 2, main_loc := InWait\<rparr>)
   \<and> run_picks 4 [PickNext io_loop, PickNext io_loop, PickNext io_loop, PickNext io_loop]
        ((init 4)\<lparr>rqueue_arr := [[], [worker 1, worker 2, worker 3, worker 4, worker 5, worker 6],
                                   [], [], [], []],
                   ready_cnt := 6, mask := 2, main_loc := InWait\<rparr>)
     = Inr ([Some (worker 1), Some (worker 2), Some (worker 3), Some (worker 4)],
            (init 4)\<lparr>rqueue_arr := [[], [worker 5, worker 6], [], [], [], []],
                      last_nice_level := 1, ready_cnt := 2, switch_cnt := 4, mask := 2,
                      main_loc := InWait\<rparr>)
   \<and> run_picks 4 [PickNext io_loop, PickNext io_loop, PickNext io_loop, PickNext io_loop,
                   PickNext io_loop]
        ((init 4)\<lparr>rqueue_arr := [[], [worker 1, worker 2, worker 3, worker 4, worker 5, worker 6],
                                   [], [], [], []],
                   ready_cnt := 6, mask := 2, main_loc := InWait\<rparr>)
     = Inr ([Some (worker 1), Some (worker 2), Some (worker 3), Some (worker 4), Some (worker 5)],
            (init 4)\<lparr>rqueue_arr := [[], [worker 6], [], [], [], []],
                      last_nice_level := 1, ready_cnt := 1, switch_cnt := 5, mask := 2,
                      main_resumes := 1, cnd_notifies := 1, main_loc := InWait\<rparr>)
   \<and> cnd_notifies ((init 4)\<lparr>rqueue_arr := [[], [worker 5, worker 6], [], [], [], []],
                       last_nice_level := 1, ready_cnt := 2, switch_cnt := 4, mask := 2,
                       main_loc := InWait\<rparr>)
     = 0 + (dequeues [Some (worker 1), Some (worker 2), Some (worker 3), Some (worker 4)]
              - MAIN_SWITCH_LIMIT)
   \<and> cnd_notifies ((init 4)\<lparr>rqueue_arr := [[], [worker 6], [], [], [], []],
                       last_nice_level := 1, ready_cnt := 1, switch_cnt := 5, mask := 2,
                       main_resumes := 1, cnd_notifies := 1, main_loc := InWait\<rparr>)
     = 0 + (dequeues [Some (worker 1), Some (worker 2), Some (worker 3), Some (worker 4),
                      Some (worker 5)] - MAIN_SWITCH_LIMIT)"
proof -
  let ?s = "(init 4)\<lparr>rqueue_arr := [[], [worker 1, worker 2, worker 3, worker 4, worker 5, worker 6],
                                      [], [], [], []],
                      ready_cnt := 6, mask := 2, main_loc := InWait\<rparr>"
  let ?s4 = "(init 4)\<lparr>rqueue_arr := [[], [worker 5, worker 6], [], [], [], []],
                       last_nice_level := 1, ready_cnt := 2, switch_cnt := 4, mask := 2,
                       main_loc := InWait\<rparr>"
  let ?s5 = "(init 4)\<lparr>rqueue_arr := [[], [worker 6], [], [], [], []],
                       last_nice_level := 1, ready_cnt := 1, switch_cnt := 5, mask := 2,
                       main_resumes := 1, cnd_notifies := 1, main_loc := InWait\<rparr>"
  let ?p4 = "[PickNext io_loop, PickNext io_loop, PickNext io_loop, PickNext io_loop]"
  let ?p5 = "[PickNext io_loop, PickNext io_loop, PickNext io_loop, PickNext io_loop,
              PickNext io_loop]"
  let ?r4 = "[Some (worker 1), Some (worker 2), Some (worker 3), Some (worker 4)]"
  let ?r5 = "[Some (worker 1), Some (worker 2), Some (worker 3), Some (worker 4), Some (worker 5)]"
  have r: "run 4 [Awakened (worker 1) (nice 1), Awakened (worker 2) (nice 1), Awakened (worker 3) (nice 1),
          Awakened (worker 4) (nice 1), Awakened (worker 5) (nice 1), Awakened (worker 6) (nice 1),
          MainStep False 0, MainStep False 0] (init 4) = Inr ?s"
    by code_simp
  have susp: "mask ?s AND LOOP_SUSPEND \<noteq> 0" by (simp add: LOOP_SUSPEND_def)
  have reset: "switch_cnt ?s = 0" by (simp add: init_def)
  have q4: "list_all is_queue_op ?p4" by simp
  have q5: "list_all is_queue_op ?p5" by simp
  have p4: "run_picks 4 ?p4 ?s = Inr (?r4, ?s4)" by code_simp
  have p5: "run_picks 4 ?p5 ?s = Inr (?r5, ?s5)" by code_simp
  have b4: "dequeues ?r4 < 2 ^ 64" and b5: "dequeues ?r5 < 2 ^ 64"
    by (simp_all add: dequeues_def)
  have z: "cnd_notifies ?s = 0" by (simp add: init_def)
  have c4: "cnd_notifies ?s4 = 0 + (dequeues ?r4 - MAIN_SWITCH_LIMIT)"
    using main_switch_bound [OF r susp reset q4 p4 b4, THEN conjunct1] by (simp only: z)
  have c5: "cnd_notifies ?s5 = 0 + (dequeues ?r5 - MAIN_SWITCH_LIMIT)"
    using main_switch_bound [OF r susp reset q5 p5 b5, THEN conjunct1] by (simp only: z)
  show ?thesis using r p4 p5 c4 c5 by (intro conjI)
qed

section \<open>FIFO within one nice level\<close>

lemma queued_before_awakened:
  assumes len: "length (rqueue_arr s) = mx + 2" and n: "n < mx + 2"
    and qb: "queued_before a b n s" and aw: "awakened mx c p s = Inr s1"
  shows "queued_before a b n s1"
proof -
  from qb obtain xs ys zs where q: "rqueue_arr s ! n = xs @ a # ys @ b # zs"
    by (auto simp: queued_before_def)
  obtain k where s1: "rqueue_arr s1 = (rqueue_arr s)[k := rqueue_arr s ! k @ [c]]"
    using aw by (cases "is_dispatcher c") (auto simp: awakened_Inr)
  show ?thesis
  proof (cases "k = n")
    case True
    then have "rqueue_arr s1 ! n = xs @ a # ys @ b # (zs @ [c])"
      using s1 len n q by simp
    then show ?thesis unfolding queued_before_def by blast
  next
    case False
    then have "rqueue_arr s1 ! n = xs @ a # ys @ b # zs" using s1 q by simp
    then show ?thesis unfolding queued_before_def by blast
  qed
qed

lemma queued_before_unlink:
  assumes len: "length (rqueue_arr s) = mx + 2" and n: "n < mx + 2"
    and qb: "queued_before a b n s" and ca: "c \<noteq> a" and cb: "c \<noteq> b"
    and u: "rqueue_arr s1 = map (removeAll c) (rqueue_arr s)"
  shows "queued_before a b n s1"
proof -
  from qb obtain xs ys zs where q: "rqueue_arr s ! n = xs @ a # ys @ b # zs"
    by (auto simp: queued_before_def)
  have "rqueue_arr s1 ! n = removeAll c xs @ a # removeAll c ys @ b # removeAll c zs"
    using u len n q ca cb by simp
  then show ?thesis unfolding queued_before_def by blast
qed

lemma queued_before_frame:
  "rqueue_arr s1 = rqueue_arr s \<Longrightarrow> queued_before a b n s \<Longrightarrow> queued_before a b n s1"
  by (simp add: queued_before_def)

lemma queued_before_pick_next:
  assumes inv: "sched_inv mx s" and n: "n < mx + 1"
    and qb: "queued_before a b n s" and pk: "pick_next mx active s = Inr (r, s1)"
  shows "r \<noteq> Some b \<and> (r = Some a \<or> queued_before a b n s1)"
proof -
  from qb obtain xs ys zs where q: "rqueue_arr s ! n = xs @ a # ys @ b # zs"
    by (auto simp: queued_before_def)
  have ok: "queues_ok mx (rqueue_arr s)" using inv by (simp add: sched_inv_def)
  then have len: "length (rqueue_arr s) = mx + 2" by (simp add: queues_ok_def)
  have n2: "n < mx + 2" using n by simp
  have dn: "distinct (rqueue_arr s ! n)" using ok n2 unfolding queues_ok_def by blast
  have bn: "b \<in> set (rqueue_arr s ! n)" using q by simp
  have "\<exists>i<mx + 1. rqueue_arr s ! i \<noteq> []" using n q by (intro exI [of _ n]) simp
  from lowest_nonempty [OF this] obtain i where i: "i < mx + 1"
    and ne: "rqueue_arr s ! i \<noteq> []" and lo: "\<forall>j<i. rqueue_arr s ! j = []" by blast
  have r: "r = Some (hd (rqueue_arr s ! i))"
    and s1: "rqueue_arr s1 = (rqueue_arr s)[i := tl (rqueue_arr s ! i)]"
    using pk pick_next_worker [OF inv i ne lo, of active] by (auto split: if_splits)
  show ?thesis
  proof (cases "i = n")
    case True
    show ?thesis
    proof (cases xs)
      case Nil
      then have "r = Some a" using r q True by simp
      moreover have "a \<noteq> b" using dn q by auto
      ultimately show ?thesis by simp
    next
      case (Cons x xs')
      then have rx: "r = Some x" using r q True by simp
      have "x \<noteq> b" using dn q Cons by auto
      moreover have "rqueue_arr s1 ! n = xs' @ a # ys @ b # zs"
        using s1 True len n2 q Cons by simp
      then have "queued_before a b n s1" unfolding queued_before_def by blast
      ultimately show ?thesis using rx by simp
    qed
  next
    case False
    have i2: "i < mx + 2" using i by simp
    have "hd (rqueue_arr s ! i) \<in> set (rqueue_arr s ! i)" using ne by simp
    then have "hd (rqueue_arr s ! i) \<noteq> b"
      using ok bn False i2 n2 unfolding queues_ok_def by blast
    moreover have "rqueue_arr s1 ! n = rqueue_arr s ! n" using s1 False by simp
    then have "queued_before a b n s1" using qb by (simp add: queued_before_def)
    ultimately show ?thesis using r by simp
  qed
qed

lemma queued_before_property_change:
  assumes inv: "sched_inv mx s" and n: "n < mx + 2"
    and qb: "queued_before a b n s" and ca: "c \<noteq> a" and cb: "c \<noteq> b"
    and pc: "property_change mx c p s = Inr s1"
  shows "queued_before a b n s1"
proof (cases "ready_is_linked c s")
  case False
  then show ?thesis using pc qb by (simp add: property_change_def)
next
  case True
  let ?u = "(ready_unlink c s)\<lparr>ready_cnt :=
           ready_cnt s - (if ready_is_linked c s \<and> \<not> is_dispatcher c then 1 else 0)\<rparr>"
  have len: "length (rqueue_arr s) = mx + 2" using inv by (simp add: sched_inv_def queues_ok_def)
  have lenu: "length (rqueue_arr ?u) = mx + 2" using len by (simp add: ready_unlink_def)
  have aw: "awakened mx c p ?u = Inr s1" using pc by (simp only: property_change_linked [OF inv True])
  have "queued_before a b n ?u"
    by (rule queued_before_unlink [OF len n qb ca cb]) (simp add: ready_unlink_def)
  then show ?thesis using aw by (rule queued_before_awakened [OF lenu n])
qed

lemma suspend_until_queues: "suspend_until act t s = Inr s1 \<Longrightarrow> rqueue_arr s1 = rqueue_arr s"
  by (auto simp: suspend_until_def Let_def split: if_splits)

lemma notify_queues: "rqueue_arr (notify now s) = rqueue_arr s"
  by (simp add: notify_def split: option.splits)

lemma MainLoop_step_queues: "rqueue_arr (MainLoop_step st k s) = rqueue_arr s"
  by (cases "main_loc s")
     (simp_all add: MainLoop_step_def WaitTillFibersSuspend_enter_def WaitTillFibersSuspend_leave_def)

lemma queued_before_exec:
  assumes inv: "sched_inv mx s" and n: "n < mx + 1"
    and qb: "queued_before a b n s" and e: "exec mx x s = Inr (r, s1)"
    and na: "\<not> changes_nice a x" and nb: "\<not> changes_nice b x"
  shows "r \<noteq> Some b \<and> (r = Some a \<or> queued_before a b n s1) \<and>
         ((\<forall>act. x \<noteq> PickNext act) \<longrightarrow> r = None)"
proof (cases x)
  case (Awakened c p)
  then obtain aw: "awakened mx c p s = Inr s1" and r: "r = None"
    using e by (cases "awakened mx c p s") auto
  have len: "length (rqueue_arr s) = mx + 2" using inv by (simp add: sched_inv_def queues_ok_def)
  have "queued_before a b n s1"
    by (rule queued_before_awakened [OF len _ qb aw]) (use n in simp)
  then show ?thesis using r by simp
next
  case (PickNext act)
  then have "pick_next mx act s = Inr (r, s1)" using e by simp
  from queued_before_pick_next [OF inv n qb this] show ?thesis using PickNext by simp
next
  case (PropertyChange c p)
  then obtain pc: "property_change mx c p s = Inr s1" and r: "r = None"
    using e by (cases "property_change mx c p s") auto
  have "c \<noteq> a" "c \<noteq> b" using na nb PropertyChange by auto
  then have "queued_before a b n s1"
    using queued_before_property_change [OF inv _ qb _ _ pc] n by simp
  then show ?thesis using r by simp
next
  case (SuspendUntil act t)
  then obtain su: "suspend_until act t s = Inr s1" and r: "r = None"
    using e by (cases "suspend_until act t s") auto
  from queued_before_frame [OF suspend_until_queues [OF su] qb] r show ?thesis by simp
next
  case (Notify now)
  then have "s1 = notify now s" and r: "r = None" using e by auto
  then show ?thesis using queued_before_frame [OF notify_queues qb] by simp
next
  case (MainStep st k)
  then have "s1 = MainLoop_step st k s" and r: "r = None" using e by auto
  then show ?thesis using queued_before_frame [OF MainLoop_step_queues qb] by simp
qed

lemma queued_before_run_picks:
  assumes "sched_inv mx s" "n < mx + 1" "queued_before a b n s"
    and "list_all (\<lambda>x. \<not> changes_nice a x \<and> \<not> changes_nice b x) xs"
    and "run_picks mx xs s = Inr (rs, s')"
  shows "Some b \<notin> set (takeWhile (\<lambda>r. r \<noteq> Some a) rs)"
  using assms
proof (induction xs arbitrary: s rs)
  case Nil
  then show ?case by simp
next
  case (Cons x xs)
  from Cons.prems(5) obtain r s1 rs1 where e: "exec mx x s = Inr (r, s1)"
    and rp: "run_picks mx xs s1 = Inr (rs1, s')"
    and rs: "rs = (case x of PickNext act \<Rightarrow> [r] | _ \<Rightarrow> []) @ rs1"
    by (auto split: sum.splits prod.splits)
  have inv1: "sched_inv mx s1" by (rule sched_inv_exec [OF Cons.prems(1) e])
  have nx: "\<not> changes_nice a x" "\<not> changes_nice b x"
    and nxs: "list_all (\<lambda>x. \<not> changes_nice a x \<and> \<not> changes_nice b x) xs"
    using Cons.prems(4) by simp_all
  from queued_before_exec [OF Cons.prems(1,2,3) e nx]
  have rb: "r \<noteq> Some b" and step: "r = Some a \<or> queued_before a b n s1"
    and quiet: "(\<forall>act. x \<noteq> PickNext act) \<longrightarrow> r = None" by simp_all
  show ?case
  proof (cases "r = Some a")
    case True
    then obtain act where "x = PickNext act" using quiet by auto
    then show ?thesis using rs True by simp
  next
    case False
    then have "queued_before a b n s1" using step by simp
    from Cons.IH [OF inv1 Cons.prems(2) this nxs rp]
    have ih: "Some b \<notin> set (takeWhile (\<lambda>r. r \<noteq> Some a) rs1)" .
    show ?thesis using rs ih False rb by (cases x) simp_all
  qed
qed

lemma picks_return_linked:
  assumes "sched_inv mx s" "n < mx + 1" "c \<in> set (rqueue_arr s ! n)"
    and "list_all is_pick xs" "run_picks mx xs s = Inr (rs, s')" "ready_cnt s \<le> length xs"
  shows "Some c \<in> set rs"
  using assms
proof (induction xs arbitrary: s rs)
  case Nil
  have "0 < length (rqueue_arr s ! n)" using Nil.prems(3) by (rule length_pos_if_in_set)
  then have "0 < worker_total mx s" using worker_total_ge [OF Nil.prems(2), of s] by linarith
  then have "0 < ready_cnt s" using Nil.prems(1) by (simp add: sched_inv_def)
  then show ?case using Nil.prems(6) by simp
next
  case (Cons x xs)
  from Cons.prems(4) obtain act where x: "x = PickNext act" by (cases x) simp_all
  from Cons.prems(5) obtain r s1 rs1 where pk: "pick_next mx act s = Inr (r, s1)"
    and rp: "run_picks mx xs s1 = Inr (rs1, s')" and rs: "rs = r # rs1"
    using x by (auto split: sum.splits prod.splits)
  have inv: "sched_inv mx s" by (rule Cons.prems(1))
  have inv1: "sched_inv mx s1" by (rule sched_inv_pick_next [OF inv pk])
  have len: "length (rqueue_arr s) = mx + 2" using inv by (simp add: sched_inv_def queues_ok_def)
  have "rqueue_arr s ! n \<noteq> []" using Cons.prems(3) by (metis empty_iff empty_set)
  then have "\<exists>i<mx + 1. rqueue_arr s ! i \<noteq> []" using Cons.prems(2) by blast
  from lowest_nonempty [OF this] obtain i where i: "i < mx + 1"
    and ne: "rqueue_arr s ! i \<noteq> []" and lo: "\<forall>j<i. rqueue_arr s ! j = []" by blast
  have r: "r = Some (hd (rqueue_arr s ! i))"
    and q1: "rqueue_arr s1 = (rqueue_arr s)[i := tl (rqueue_arr s ! i)]"
    and c1: "ready_cnt s1 = ready_cnt s - 1"
    using pk pick_next_worker [OF inv i ne lo, of act] by (auto split: if_splits)
  show ?case
  proof (cases "hd (rqueue_arr s ! i) = c")
    case True
    then show ?thesis using r rs by simp
  next
    case False
    have "c \<in> set (rqueue_arr s1 ! n)"
    proof (cases "i = n")
      case True
      then have "rqueue_arr s1 ! n = tl (rqueue_arr s ! n)" using q1 len Cons.prems(2) by simp
      moreover have "c \<in> set (tl (rqueue_arr s ! n))"
        using Cons.prems(3) False True by (cases "rqueue_arr s ! n") auto
      ultimately show ?thesis by simp
    next
      case False
      then show ?thesis using q1 Cons.prems(3) by simp
    qed
    moreover have "ready_cnt s1 \<le> length xs" using c1 Cons.prems(6) by simp
    moreover have "list_all is_pick xs" using Cons.prems(4) by simp
    ultimately have "Some c \<in> set rs1"
      using Cons.IH [OF inv1 Cons.prems(2) _ _ rp] by blast
    then show ?thesis using rs by simp
  qed
qed

lemma exec_result_None:
  "exec mx x s = Inr (r, s1) \<Longrightarrow> \<not> is_pick x \<Longrightarrow> r = None"
  by (cases x) (auto simp: map_sum_def split: sum.splits)

lemma stays_linked_awakened:
  assumes len: "length (rqueue_arr s) = mx + 2" and n: "n < mx + 2"
    and l: "a \<in> set (rqueue_arr s ! n)" and aw: "awakened mx c p s = Inr s1"
  shows "a \<in> set (rqueue_arr s1 ! n)"
proof -
  obtain k where s1: "rqueue_arr s1 = (rqueue_arr s)[k := rqueue_arr s ! k @ [c]]"
    using aw by (cases "is_dispatcher c") (auto simp: awakened_Inr)
  show ?thesis using s1 len n l by (cases "k = n") simp_all
qed

lemma stays_linked_exec:
  assumes inv: "sched_inv mx s" and n: "n < mx + 1"
    and l: "a \<in> set (rqueue_arr s ! n)" and e: "exec mx x s = Inr (r, s1)"
    and na: "\<not> changes_nice a x" and ra: "r \<noteq> Some a"
  shows "a \<in> set (rqueue_arr s1 ! n)"
proof (cases x)
  case (Awakened c p)
  then obtain aw: "awakened mx c p s = Inr s1"
    using e by (cases "awakened mx c p s") auto
  have len: "length (rqueue_arr s) = mx + 2" using inv by (simp add: sched_inv_def queues_ok_def)
  show ?thesis by (rule stays_linked_awakened [OF len _ l aw]) (use n in simp)
next
  case (PickNext act)
  then have pk: "pick_next mx act s = Inr (r, s1)" using e by simp
  have len: "length (rqueue_arr s) = mx + 2" using inv by (simp add: sched_inv_def queues_ok_def)
  have "rqueue_arr s ! n \<noteq> []" using l by (metis empty_iff empty_set)
  then have "\<exists>i<mx + 1. rqueue_arr s ! i \<noteq> []" using n by blast
  from lowest_nonempty [OF this] obtain i where i: "i < mx + 1"
    and ne: "rqueue_arr s ! i \<noteq> []" and lo: "\<forall>j<i. rqueue_arr s ! j = []" by blast
  have r: "r = Some (hd (rqueue_arr s ! i))"
    and q1: "rqueue_arr s1 = (rqueue_arr s)[i := tl (rqueue_arr s ! i)]"
    using pk pick_next_worker [OF inv i ne lo, of act] by (auto split: if_splits)
  show ?thesis
  proof (cases "i = n")
    case True
    then have "rqueue_arr s1 ! n = tl (rqueue_arr s ! n)" using q1 len n by simp
    moreover have "hd (rqueue_arr s ! n) \<noteq> a" using r ra True by simp
    then have "a \<in> set (tl (rqueue_arr s ! n))"
      using l by (cases "rqueue_arr s ! n") auto
    ultimately show ?thesis by simp
  next
    case False
    then show ?thesis using q1 l by simp
  qed
next
  case (PropertyChange c p)
  then obtain pc: "property_change mx c p s = Inr s1"
    using e by (cases "property_change mx c p s") auto
  have ca: "c \<noteq> a" using na PropertyChange by auto
  show ?thesis
  proof (cases "ready_is_linked c s")
    case False
    then show ?thesis using pc l by (simp add: property_change_def)
  next
    case True
    let ?u = "(ready_unlink c s)\<lparr>ready_cnt :=
           ready_cnt s - (if ready_is_linked c s \<and> \<not> is_dispatcher c then 1 else 0)\<rparr>"
    have len: "length (rqueue_arr s) = mx + 2" using inv by (simp add: sched_inv_def queues_ok_def)
    have lenu: "length (rqueue_arr ?u) = mx + 2" using len by (simp add: ready_unlink_def)
    have aw: "awakened mx c p ?u = Inr s1"
      using pc by (simp only: property_change_linked [OF inv True])
    have lu: "a \<in> set (rqueue_arr ?u ! n)" using l ca len n by (simp add: ready_unlink_def)
    show ?thesis by (rule stays_linked_awakened [OF lenu _ lu aw]) (use n in simp)
  qed
next
  case (SuspendUntil act t)
  then obtain su: "suspend_until act t s = Inr s1"
    using e by (cases "suspend_until act t s") auto
  show ?thesis using suspend_until_queues [OF su] l by simp
next
  case (Notify now)
  then have "s1 = notify now s" using e by auto
  then show ?thesis using notify_queues [of now s] l by simp
next
  case (MainStep st k)
  then have "s1 = MainLoop_step st k s" using e by auto
  then show ?thesis using MainLoop_step_queues [of st k s] l by simp
qed

lemma stays_linked_run_picks:
  assumes "sched_inv mx s" "n < mx + 1" "a \<in> set (rqueue_arr s ! n)"
    and "list_all (\<lambda>x. \<not> changes_nice a x) xs"
    and "run_picks mx xs s = Inr (rs, s')" "Some a \<notin> set rs"
  shows "a \<in> set (rqueue_arr s' ! n) \<and> sched_inv mx s'"
  using assms
proof (induction xs arbitrary: s rs)
  case Nil
  then show ?case by simp
next
  case (Cons x xs)
  from Cons.prems(5) obtain r s1 rs1 where e: "exec mx x s = Inr (r, s1)"
    and rp: "run_picks mx xs s1 = Inr (rs1, s')"
    and rs: "rs = (case x of PickNext act \<Rightarrow> [r] | _ \<Rightarrow> []) @ rs1"
    by (auto split: sum.splits prod.splits)
  have inv1: "sched_inv mx s1" by (rule sched_inv_exec [OF Cons.prems(1) e])
  have nx: "\<not> changes_nice a x" and nxs: "list_all (\<lambda>x. \<not> changes_nice a x) xs"
    using Cons.prems(4) by simp_all
  have ra: "r \<noteq> Some a"
  proof (cases "is_pick x")
    case True
    then obtain act where "x = PickNext act" by (cases x) simp_all
    then show ?thesis using rs Cons.prems(6) by auto
  next
    case False
    from exec_result_None [OF e False] show ?thesis by simp
  qed
  have rest: "Some a \<notin> set rs1" using rs Cons.prems(6) by simp
  have "a \<in> set (rqueue_arr s1 ! n)"
    by (rule stays_linked_exec [OF Cons.prems(1,2,3) e nx ra])
  from Cons.IH [OF inv1 Cons.prems(2) this nxs rp rest] show ?case .
qed

text \<open>
  C2, as stated, fails: \<^verbatim>\<open>property_change\<close> unlinks a linked context and links it again
  at the tail of the queue of its new level. Here \<open>fiber_a\<close> and \<open>fiber_b\<close> are awakened
  at level 1 in this order and neither is dequeued; the nice level of \<open>fiber_a\<close> is then
  set to 2 and back to 1 (two calls of \<^verbatim>\<open>SetNiceLevel\<close>, each of which reaches
  \<^verbatim>\<open>property_change\<close>), so both are at level 1 again, and \<^verbatim>\<open>pick_next\<close> returns
  \<open>fiber_b\<close> first.
\<close>

theorem fifo_broken_by_property_change:
  "awakened 4 fiber_a (nice 1) (init 4)
       = Inr ((init 4)\<lparr>rqueue_arr := [[], [fiber_a], [], [], [], []], ready_cnt := 1\<rparr>)
   \<and> awakened 4 fiber_b (nice 1) ((init 4)\<lparr>rqueue_arr := [[], [fiber_a], [], [], [], []], ready_cnt := 1\<rparr>)
       = Inr ((init 4)\<lparr>rqueue_arr := [[], [fiber_a, fiber_b], [], [], [], []], ready_cnt := 2\<rparr>)
   \<and> snd (SetNiceLevel 4 2 fiber_a (nice 1)
            ((init 4)\<lparr>rqueue_arr := [[], [fiber_a, fiber_b], [], [], [], []], ready_cnt := 2\<rparr>))
       = Inr ((init 4)\<lparr>rqueue_arr := [[], [fiber_b], [fiber_a], [], [], []], ready_cnt := 2\<rparr>)
   \<and> snd (SetNiceLevel 4 1 fiber_a (nice 2)
            ((init 4)\<lparr>rqueue_arr := [[], [fiber_b], [fiber_a], [], [], []], ready_cnt := 2\<rparr>))
       = Inr ((init 4)\<lparr>rqueue_arr := [[], [fiber_b, fiber_a], [], [], [], []], ready_cnt := 2\<rparr>)
   \<and> run_picks 4 [PropertyChange fiber_a (nice 2), PropertyChange fiber_a (nice 1),
                   PickNext io_loop, PickNext io_loop]
        ((init 4)\<lparr>rqueue_arr := [[], [fiber_a, fiber_b], [], [], [], []], ready_cnt := 2\<rparr>)
       = Inr ([Some fiber_b, Some fiber_a], (init 4)\<lparr>last_nice_level := 1\<rparr>)"
  by code_simp

text \<open>
  C2, amended. Let \<open>a\<close> and \<open>b\<close> be workers with the same nice level. \<open>a\<close> is awakened
  in a reachable state; any run follows in which no \<^verbatim>\<open>pick_next\<close> returns \<open>a\<close> and no
  \<^verbatim>\<open>property_change\<close> is called on \<open>a\<close>; then \<open>b\<close> is awakened. In every run that
  follows and does not call \<^verbatim>\<open>property_change\<close> on either of them, among the contexts
  that the \<^verbatim>\<open>pick_next\<close> calls return, \<open>b\<close> does not occur before the first \<open>a\<close>. When
  that run consists of \<^verbatim>\<open>pick_next\<close> calls only, at least as many as \<open>ready_cnt\<close>, both
  are returned.
\<close>

theorem fifo_within_level:
  assumes reach: "run mx ops0 (init mx) = Inr s"
    and workers: "\<not> is_dispatcher a" "\<not> is_dispatcher b"
    and level: "nice_level pa = nice_level pb"
    and aw1: "awakened mx a pa s = Inr s1"
    and between: "run_picks mx mid s1 = Inr (rs0, s1')"
    and kept: "Some a \<notin> set rs0"
    and quiet0: "list_all (\<lambda>x. \<not> changes_nice a x) mid"
    and aw2: "awakened mx b pb s1' = Inr s2"
    and quiet: "list_all (\<lambda>x. \<not> changes_nice a x \<and> \<not> changes_nice b x) ops"
    and picks: "run_picks mx ops s2 = Inr (rs, s')"
  shows "Some b \<notin> set (takeWhile (\<lambda>r. r \<noteq> Some a) rs) \<and>
         (list_all is_pick ops \<and> ready_cnt s2 \<le> length ops \<longrightarrow>
            Some a \<in> set rs \<and> Some b \<in> set rs)"
proof -
  have inv: "sched_inv mx s" by (rule reachable_inv [OF reach])
  have inv1: "sched_inv mx s1" by (rule sched_inv_awakened [OF inv aw1])
  let ?n = "nice_level pa"
  have len: "length (rqueue_arr s) = mx + 2" using inv by (simp add: sched_inv_def queues_ok_def)
  have n: "?n < mx + 1" using aw1 workers by (simp add: awakened_Inr)
  have q1: "rqueue_arr s1 = (rqueue_arr s)[?n := rqueue_arr s ! ?n @ [a]]"
    using aw1 workers by (simp add: awakened_Inr)
  have l1: "a \<in> set (rqueue_arr s1 ! ?n)" using q1 len n by simp
  from stays_linked_run_picks [OF inv1 n l1 quiet0 between kept]
  have l1': "a \<in> set (rqueue_arr s1' ! ?n)" and inv1': "sched_inv mx s1'" by simp_all
  have inv2: "sched_inv mx s2" by (rule sched_inv_awakened [OF inv1' aw2])
  have len1': "length (rqueue_arr s1') = mx + 2"
    using inv1' by (simp add: sched_inv_def queues_ok_def)
  have q2: "rqueue_arr s2 = (rqueue_arr s1')[?n := rqueue_arr s1' ! ?n @ [b]]"
    using aw2 workers level by (simp add: awakened_Inr)
  from l1' obtain xs ys where sp: "rqueue_arr s1' ! ?n = xs @ a # ys"
    by (auto dest: split_list)
  have q: "rqueue_arr s2 ! ?n = xs @ a # ys @ b # []"
    using q2 len1' n sp by simp
  then have "queued_before a b ?n s2" unfolding queued_before_def by blast
  from queued_before_run_picks [OF inv2 n this quiet picks]
  have order: "Some b \<notin> set (takeWhile (\<lambda>r. r \<noteq> Some a) rs)" .
  have "Some a \<in> set rs \<and> Some b \<in> set rs"
    if h: "list_all is_pick ops \<and> ready_cnt s2 \<le> length ops"
  proof -
    have ia: "a \<in> set (rqueue_arr s2 ! ?n)" and ib: "b \<in> set (rqueue_arr s2 ! ?n)"
      using q by simp_all
    from h have p: "list_all is_pick ops" and c: "ready_cnt s2 \<le> length ops" by simp_all
    show ?thesis
      using picks_return_linked [OF inv2 n ia p picks c] picks_return_linked [OF inv2 n ib p picks c]
      by simp
  qed
  with order show ?thesis by blast
qed

text \<open>
  The run: \<open>fiber_a\<close> is awakened at level 1; a third worker is awakened at level 0 and
  picked; \<open>fiber_b\<close> is awakened at level 1; two picks follow.
\<close>

theorem fifo_within_level_witness:
  "run 4 [] (init 4) = Inr (init 4)
   \<and> awakened 4 fiber_a (nice 1) (init 4)
       = Inr ((init 4)\<lparr>rqueue_arr := [[], [fiber_a], [], [], [], []], ready_cnt := 1\<rparr>)
   \<and> run_picks 4 [Awakened (worker 7) (nice 0), PickNext io_loop]
        ((init 4)\<lparr>rqueue_arr := [[], [fiber_a], [], [], [], []], ready_cnt := 1\<rparr>)
       = Inr ([Some (worker 7)],
              (init 4)\<lparr>rqueue_arr := [[], [fiber_a], [], [], [], []], ready_cnt := 1\<rparr>)
   \<and> Some fiber_a \<notin> set [Some (worker 7)]
   \<and> awakened 4 fiber_b (nice 1) ((init 4)\<lparr>rqueue_arr := [[], [fiber_a], [], [], [], []], ready_cnt := 1\<rparr>)
       = Inr ((init 4)\<lparr>rqueue_arr := [[], [fiber_a, fiber_b], [], [], [], []], ready_cnt := 2\<rparr>)
   \<and> run_picks 4 [PickNext io_loop, PickNext io_loop]
        ((init 4)\<lparr>rqueue_arr := [[], [fiber_a, fiber_b], [], [], [], []], ready_cnt := 2\<rparr>)
       = Inr ([Some fiber_a, Some fiber_b], (init 4)\<lparr>last_nice_level := 1\<rparr>)
   \<and> Some fiber_b \<notin> set (takeWhile (\<lambda>r. r \<noteq> Some fiber_a) [Some fiber_a, Some fiber_b])
   \<and> Some fiber_a \<in> set [Some fiber_a, Some fiber_b]
   \<and> Some fiber_b \<in> set [Some fiber_a, Some fiber_b]"
proof -
  let ?s1 = "(init 4)\<lparr>rqueue_arr := [[], [fiber_a], [], [], [], []], ready_cnt := 1\<rparr>"
  let ?s2 = "(init 4)\<lparr>rqueue_arr := [[], [fiber_a, fiber_b], [], [], [], []], ready_cnt := 2\<rparr>"
  let ?mid = "[Awakened (worker 7) (nice 0), PickNext io_loop]"
  let ?ops = "[PickNext io_loop, PickNext io_loop]"
  have r: "run 4 [] (init 4) = Inr (init 4)" by simp
  have w: "\<not> is_dispatcher fiber_a" "\<not> is_dispatcher fiber_b"
    by (simp_all add: is_dispatcher_def fiber_a_def fiber_b_def)
  have l: "nice_level (nice 1) = nice_level (nice 1)" by simp
  have a1: "awakened 4 fiber_a (nice 1) (init 4) = Inr ?s1" by code_simp
  have m: "run_picks 4 ?mid ?s1 = Inr ([Some (worker 7)], ?s1)" by code_simp
  have k: "Some fiber_a \<notin> set [Some (worker 7)]" by (simp add: fiber_a_def worker_def)
  have q0: "list_all (\<lambda>x. \<not> changes_nice fiber_a x) ?mid" by simp
  have a2: "awakened 4 fiber_b (nice 1) ?s1 = Inr ?s2" by code_simp
  have q: "list_all (\<lambda>x. \<not> changes_nice fiber_a x \<and> \<not> changes_nice fiber_b x) ?ops" by simp
  have p: "run_picks 4 ?ops ?s2 = Inr ([Some fiber_a, Some fiber_b], (init 4)\<lparr>last_nice_level := 1\<rparr>)"
    by code_simp
  have h: "list_all is_pick ?ops \<and> ready_cnt ?s2 \<le> length ?ops" by simp
  note f = fifo_within_level [OF r w l a1 m k q0 a2 q p]
  have c1: "Some fiber_b \<notin> set (takeWhile (\<lambda>r. r \<noteq> Some fiber_a) [Some fiber_a, Some fiber_b])"
    using f [THEN conjunct1] .
  have c2: "Some fiber_a \<in> set [Some fiber_a, Some fiber_b] \<and> Some fiber_b \<in> set [Some fiber_a, Some fiber_b]"
    using f [THEN conjunct2, rule_format, OF h] .
  show ?thesis using r a1 m k a2 p c1 c2 by (intro conjI) simp_all
qed

section \<open>Re-arming the suspend timer\<close>

text \<open>
  C4. Two calls of \<^verbatim>\<open>suspend_until\<close> in a row with the same finite deadline: the source
  compares the deadline with \<^verbatim>\<open>time_point::max()\<close> only, never with the expiry of the
  timer, so the second call issues \<^verbatim>\<open>expires_at\<close> and \<^verbatim>\<open>async_wait\<close> again and
  cancels the wait of the first call. Evaluated at the deadline 1000 on the freshly
  constructed scheduler: the state after the first call, and after both.
\<close>

theorem suspend_until_same_deadline_rearms:
  "run 4 [SuspendUntil the_dispatcher 1000] (init 4)
     = Inr ((init 4)\<lparr>suspend_timer :=
               Some \<lparr>expiry = 1000, pending_waits = 1, aborted_waits = 0,
                     calls = [ExpiresAt 1000, AsyncWait]\<rparr>,
             cnd_notifies := 1\<rparr>)
   \<and> run 4 [SuspendUntil the_dispatcher 1000, SuspendUntil the_dispatcher 1000] (init 4)
     = Inr ((init 4)\<lparr>suspend_timer :=
               Some \<lparr>expiry = 1000, pending_waits = 1, aborted_waits = 1,
                     calls = [ExpiresAt 1000, AsyncWait, ExpiresAt 1000, AsyncWait]\<rparr>,
             cnd_notifies := 2\<rparr>)"
  by (simp add: suspend_until_def init_def new_timer_def expires_at_def async_wait_def
      the_dispatcher_def is_dispatcher_def time_point_max_def LOOP_RUN_ONE_def)

text \<open>
  C9. \<^verbatim>\<open>notify\<close> at time 7, on the freshly constructed scheduler and after a
  \<^verbatim>\<open>suspend_until\<close> that armed the timer: the source calls \<^verbatim>\<open>async_wait\<close> first and
  \<^verbatim>\<open>expires_at(now)\<close> second, so the wait it has just registered is cancelled by the
  reset, together with the one that was pending, and no wait is pending for the new expiry
  when \<^verbatim>\<open>notify\<close> returns.
\<close>

theorem notify_leaves_no_pending_wait:
  "notify 7 (init 4)
     = (init 4)\<lparr>suspend_timer :=
          Some \<lparr>expiry = 7, pending_waits = 0, aborted_waits = 1,
                calls = [AsyncWait, ExpiresAt 7]\<rparr>\<rparr>
   \<and> run 4 [SuspendUntil the_dispatcher 1000, Notify 7] (init 4)
     = Inr ((init 4)\<lparr>suspend_timer :=
               Some \<lparr>expiry = 7, pending_waits = 0, aborted_waits = 2,
                     calls = [ExpiresAt 1000, AsyncWait, AsyncWait, ExpiresAt 7]\<rparr>,
             cnd_notifies := 1\<rparr>)"
  by (simp add: notify_def suspend_until_def init_def new_timer_def expires_at_def async_wait_def
      the_dispatcher_def is_dispatcher_def time_point_max_def LOOP_RUN_ONE_def)

end
